theory Spec2Isabelle
  imports Main
begin

section \<open>DarkSearch.py: values, exceptions and the network\<close>

text \<open>
  The value that \<^verbatim>\<open>response.json()\<close> returns: a Python object built from \<^verbatim>\<open>None\<close>,
  booleans, integers, strings, lists and dicts. A dict is an association list read with
  \<open>map_of\<close>. JSON numbers are Python ints here (the upstream protocol sends page numbers
  and totals as integers); floats are outside the model.
\<close>

datatype json =
    JNull
  | JBool bool
  | JInt int
  | JStr string
  | JArr "json list"
  | JObj "(string \<times> json) list"

text \<open>
  The exceptions of the module (\<^verbatim>\<open>NoQueryException\<close>, \<^verbatim>\<open>QuotaOverloadException\<close>,
  \<^verbatim>\<open>InvalidPageException\<close>), \<^verbatim>\<open>requests.exceptions.HTTPError\<close> with the status
  it reports, and the built-in exceptions the code can run into. Every one but the first
  four is caught by the clause \<^verbatim>\<open>except Exception\<close>.
\<close>

datatype exn =
    NoQueryException
  | QuotaOverloadException
  | InvalidPageException
  | HTTPError int
  | ConnectionError
  | JSONDecodeError
  | TypeError
  | AttributeError
  | ValueError
  | IndexError
  | ZeroDivisionError
  | UnboundLocalError

text \<open>
  What one call of \<^verbatim>\<open>requests.get\<close> gives back: the transport fails (the call raises
  a \<^verbatim>\<open>RequestException\<close> that is not an \<^verbatim>\<open>HTTPError\<close>), or a response arrives with
  its status code and, when the body is JSON, the parsed body.
\<close>

datatype fetch =
    Transport_failure
  | Response int "json option"

text \<open>
  \<^verbatim>\<open>Response.raise_for_status()\<close> of the requests library: it raises \<^verbatim>\<open>HTTPError\<close>
  for every status from 400 to 599 and returns otherwise.
\<close>

definition raise_for_status :: "int \<Rightarrow> exn option" where
  "raise_for_status code = (if 400 \<le> code \<and> code < 600 then Some (HTTPError code) else None)"

text \<open>\<^verbatim>\<open>class Result\<close>: the three values read from one upstream record.\<close>

record result =
  title :: json
  link :: json
  description :: json

text \<open>What \<^verbatim>\<open>print\<close> writes, one constructor per print statement of the module.\<close>

datatype msg =
    Size_of_Results nat
  | Current_Page json
  | Final_Page json
  | Proxies_added nat
  | Scraping_threads nat
  | Queries_per_thread int
  | Thread_Range nat int int
  | Estimated_Time int
  | No_query_specified
  | Page_number_invalid
  | API_quota_exceeded
  | HTTP_Error exn
  | Exception_caught exn
  | Thread_using_proxy nat string
  | Loop_condition bool
  | Thread_received nat nat
  | Thread_quota_exceeded nat
  | Thread_HTTP_Error nat exn
  | Thread_exception nat exn
  | Thread_finished nat
  | Counter_is nat
  | Stopping_threads

subsection \<open>Python operations on parsed JSON\<close>

text \<open>\<^verbatim>\<open>d.get(key, default)\<close> on a dict.\<close>

definition dict_get :: "(string \<times> json) list \<Rightarrow> string \<Rightarrow> json \<Rightarrow> json" where
  "dict_get kvs k d = (case map_of kvs k of None \<Rightarrow> d | Some v \<Rightarrow> v)"

text \<open>
  \<^verbatim>\<open>for r in data\<close>: the elements of a list, the keys of a dict, the characters of a
  string; anything else is not iterable.
\<close>

fun py_iter :: "json \<Rightarrow> exn + json list" where
  "py_iter (JArr xs) = Inr xs"
| "py_iter (JObj kvs) = Inr (map (\<lambda>kv. JStr (fst kv)) kvs)"
| "py_iter (JStr s) = Inr (map (\<lambda>c. JStr [c]) s)"
| "py_iter _ = Inl TypeError"

text \<open>
  \<^verbatim>\<open>int(x)\<close>. How Python reads a string as an integer is the parameter \<open>int_of_str\<close>
  (\<open>None\<close> where \<^verbatim>\<open>int\<close> raises \<^verbatim>\<open>ValueError\<close>).
\<close>

fun py_int :: "(string \<Rightarrow> int option) \<Rightarrow> json \<Rightarrow> exn + int" where
  "py_int int_of_str (JInt n) = Inr n"
| "py_int int_of_str (JBool b) = Inr (if b then 1 else 0)"
| "py_int int_of_str (JStr s) = (case int_of_str s of None \<Rightarrow> Inl ValueError | Some n \<Rightarrow> Inr n)"
| "py_int int_of_str _ = Inl TypeError"

text \<open>
  The number an int is compared with in \<^verbatim>\<open>thread_last_page > last_page\<close>: an int or a
  bool; comparing an int with anything else raises \<^verbatim>\<open>TypeError\<close>.
\<close>

fun py_num :: "json \<Rightarrow> int option" where
  "py_num (JInt n) = Some n"
| "py_num (JBool b) = Some (if b then 1 else 0)"
| "py_num _ = None"

text \<open>
  \<^verbatim>\<open>math.ceil(a / b)\<close> for a positive divisor, as the exact ceiling of the quotient.
  Python divides in floating point: the two agree as long as \<open>a\<close> is below \<open>2 ^ 53\<close>
  in absolute value, which page counts are; beyond that the source rounds, and for an
  \<open>a\<close> no float can hold it raises \<^verbatim>\<open>OverflowError\<close>. The facts proved below
  hold for any number of queries per thread, or read \<open>ceil_div\<close> at 0 only.
\<close>

definition ceil_div :: "int \<Rightarrow> int \<Rightarrow> int" where
  "ceil_div a b = - ((- a) div b)"

text \<open>
  \<^verbatim>\<open>Result(r.get("title"), r.get("link"), r.get("description"))\<close>: \<^verbatim>\<open>r\<close> must be a
  dict; a missing key reads as \<^verbatim>\<open>None\<close>.
\<close>

fun mk_result :: "json \<Rightarrow> exn + result" where
  "mk_result (JObj kvs) =
     Inr \<lparr>title = dict_get kvs ''title'' JNull, link = dict_get kvs ''link'' JNull,
          description = dict_get kvs ''description'' JNull\<rparr>"
| "mk_result _ = Inl AttributeError"

text \<open>
  The loop \<^verbatim>\<open>for r in data: RESULTS.append(Result(...))\<close>: the results appended before
  an element raises stay appended.
\<close>

fun append_results :: "json list \<Rightarrow> result list \<Rightarrow> exn option \<times> result list" where
  "append_results [] rs = (None, rs)"
| "append_results (r # xs) rs =
     (case mk_result r of
        Inl e \<Rightarrow> (Some e, rs)
      | Inr x \<Rightarrow> append_results xs (rs @ [x]))"

section \<open>The module's state\<close>

text \<open>
  A \<^verbatim>\<open>SearchThread\<close>: its attributes, the locals of \<^verbatim>\<open>run\<close> (\<open>counter\<close>,
  \<open>proxy_fail_counter\<close>, \<open>proxy\<close>, unbound before \<^verbatim>\<open>run\<close> assigns them), the place
  \<^verbatim>\<open>run\<close> has reached and the seconds spent in \<^verbatim>\<open>time.sleep\<close>.
\<close>

datatype pc = Start | Head | Body | Fetching | Sleeping | Exiting | Finished | Crashed

record thread =
  name :: nat
  kill_received :: bool
  query :: string
  start_page :: int
  end_page :: int
  pc :: pc
  counter :: int
  proxy_fail_counter :: nat
  proxy :: "string option"
  slept :: nat

text \<open>Where \<^verbatim>\<open>main\<close> is after \<^verbatim>\<open>search\<close> has returned.\<close>

datatype main_pc = MLoop | MJoin | MReturned | MExited | MInterrupted

text \<open>
  The globals \<^verbatim>\<open>PROXIES\<close>, \<^verbatim>\<open>THREADS\<close>, \<^verbatim>\<open>RESULTS\<close>, and the effects on the
  world: the requests sent (query, page, proxy), the lines printed, the files written,
  and the local \<^verbatim>\<open>counter\<close> of \<^verbatim>\<open>main\<close>.
\<close>

record state =
  PROXIES :: "string list"
  THREADS :: "thread list"
  RESULTS :: "result list"
  sent :: "(string \<times> int \<times> string option) list"
  stdout :: "msg list"
  files :: "(string \<times> json) list"
  main_pc :: main_pc
  main_counter :: nat

definition QUERIES_PER_MINUTE :: int where "QUERIES_PER_MINUTE = 30"
definition PROXY_FAIL_LIMIT :: nat where "PROXY_FAIL_LIMIT = 10"
definition NUMBER_OF_THREADS :: nat where "NUMBER_OF_THREADS = 5"

definition print :: "msg list \<Rightarrow> state \<Rightarrow> state" where
  "print ms s = s\<lparr>stdout := stdout s @ ms\<rparr>"

section \<open>search\<close>

text \<open>
  \<^verbatim>\<open>SearchThread(i, query, start, end)\<close> followed by \<^verbatim>\<open>start()\<close>: the thread is at the
  first statement of \<^verbatim>\<open>run\<close>.
\<close>

definition SearchThread :: "nat \<Rightarrow> string \<Rightarrow> int \<Rightarrow> int \<Rightarrow> thread" where
  "SearchThread i q a b =
     \<lparr>name = i, kill_received = False, query = q, start_page = a, end_page = b,
      pc = Start, counter = a, proxy_fail_counter = 0, proxy = None, slept = 0\<rparr>"

text \<open>
  The loop \<^verbatim>\<open>for i in range(0, NUMBER_OF_THREADS)\<close> of \<^verbatim>\<open>search\<close>; \<open>tcp\<close> is
  \<^verbatim>\<open>thread_current_page\<close>, \<open>qpt\<close> is \<^verbatim>\<open>queries_per_thread\<close>.
\<close>

fun spawn :: "nat list \<Rightarrow> string \<Rightarrow> int \<Rightarrow> json \<Rightarrow> int \<Rightarrow> state \<Rightarrow> exn option \<times> state" where
  "spawn [] q qpt last_page tcp s = (None, s)"
| "spawn (i # is) q qpt last_page tcp s =
     (case py_num last_page of
        None \<Rightarrow> (Some TypeError, s)
      | Some l \<Rightarrow>
          (let tlp = (if tcp + qpt > l then l else tcp + qpt);
               s1 = print [Thread_Range i tcp tlp] s;
               s2 = s1\<lparr>THREADS := THREADS s1 @ [SearchThread i q tcp tlp]\<rparr>
           in spawn is q qpt last_page (tlp + 1) s2))"

text \<open>
  The branch of \<^verbatim>\<open>search\<close> taken when the body has a \<^verbatim>\<open>total\<close>. It runs as one
  step, so its last statement reads \<^verbatim>\<open>len(PROXIES)\<close> before any thread it started has
  moved. In the source a started thread may already have popped its proxy by then: with
  the pool emptied that way the last statement raises \<^verbatim>\<open>ZeroDivisionError\<close> where this
  definition prints the estimate. Only that last line differs; the threads started, the
  results and the requests are the same, and no statement below is about that line.
\<close>

definition dispatch ::
  "(string \<Rightarrow> int option) \<Rightarrow> string \<Rightarrow> (string \<times> json) list \<Rightarrow> state \<Rightarrow> exn option \<times> state" where
  "dispatch int_of_str q kvs s =
     (let current_page = dict_get kvs ''current_page'' (JInt 1);
          last_page = dict_get kvs ''last_page'' JNull;
          data = dict_get kvs ''data'' JNull
      in case py_iter data of
           Inl e \<Rightarrow> (Some e, s)
         | Inr items \<Rightarrow>
            (case append_results items (RESULTS s) of
               (Some e, rs) \<Rightarrow> (Some e, s\<lparr>RESULTS := rs\<rparr>)
             | (None, rs) \<Rightarrow>
                (let s1 = print [Size_of_Results (length rs), Current_Page current_page,
                                 Final_Page last_page] (s\<lparr>RESULTS := rs\<rparr>)
                 in case py_int int_of_str last_page of
                      Inl e \<Rightarrow> (Some e, s1)
                    | Inr l \<Rightarrow>
                       (case py_int int_of_str current_page of
                          Inl e \<Rightarrow> (Some e, s1)
                        | Inr c \<Rightarrow>
                           (let remaining_pages = l - c;
                                queries_per_thread = ceil_div remaining_pages (int NUMBER_OF_THREADS);
                                estimated_minutes = ceil_div remaining_pages QUERIES_PER_MINUTE;
                                s2 = print [Proxies_added (length (PROXIES s1)),
                                            Scraping_threads NUMBER_OF_THREADS,
                                            Queries_per_thread queries_per_thread] s1
                            in case spawn [0..<NUMBER_OF_THREADS] q queries_per_thread last_page (c + 1) s2 of
                                 (Some e, s3) \<Rightarrow> (Some e, s3)
                               | (None, s3) \<Rightarrow>
                                  (if length (PROXIES s3) = 0 then (Some ZeroDivisionError, s3)
                                   else (None, print [Estimated_Time
                                           (ceil_div estimated_minutes (int (length (PROXIES s3))))] s3)))))))"

text \<open>
  The \<^verbatim>\<open>try\<close> block of \<^verbatim>\<open>search\<close>: the exception it raises, if any, and the state
  it leaves. \<open>f\<close> is what \<^verbatim>\<open>requests.get\<close> gives for the one request of the block.
  \<^verbatim>\<open>response.status_code is 429\<close> is read as equality.
\<close>

definition search_try ::
  "(string \<Rightarrow> int option) \<Rightarrow> string option \<Rightarrow> int option \<Rightarrow> fetch \<Rightarrow> state \<Rightarrow> exn option \<times> state" where
  "search_try int_of_str query_arg page_arg f s =
     (case query_arg of
        None \<Rightarrow> (Some NoQueryException, s)
      | Some q \<Rightarrow>
         if length q \<le> 0 then (Some NoQueryException, s)
         else (case page_arg of
            None \<Rightarrow> (Some InvalidPageException, s)
          | Some page \<Rightarrow>
             if page \<le> 0 then (Some InvalidPageException, s)
             else (let s1 = s\<lparr>sent := sent s @ [(q, page, None)]\<rparr>
               in case f of
                    Transport_failure \<Rightarrow> (Some ConnectionError, s1)
                  | Response code body \<Rightarrow>
                     (case raise_for_status code of
                        Some e \<Rightarrow> (Some e, s1)
                      | None \<Rightarrow>
                         if code = 429 then (Some QuotaOverloadException, s1)
                         else (case body of
                            None \<Rightarrow> (Some JSONDecodeError, s1)
                          | Some (JObj kvs) \<Rightarrow>
                             if dict_get kvs ''total'' JNull \<noteq> JNull then dispatch int_of_str q kvs s1
                             else (None, s1)
                          | Some _ \<Rightarrow> (Some AttributeError, s1))))))"

text \<open>The \<^verbatim>\<open>except\<close> clauses of \<^verbatim>\<open>search\<close>: each prints one line.\<close>

fun search_except :: "exn \<Rightarrow> msg" where
  "search_except NoQueryException = No_query_specified"
| "search_except InvalidPageException = Page_number_invalid"
| "search_except QuotaOverloadException = API_quota_exceeded"
| "search_except (HTTPError c) = HTTP_Error (HTTPError c)"
| "search_except e = Exception_caught e"

text \<open>
  \<^verbatim>\<open>search(query, page)\<close>: the exception its \<^verbatim>\<open>try\<close> block raised and its handler
  caught (\<open>None\<close> when the block ran to its end), and the state afterwards.
\<close>

definition search ::
  "(string \<Rightarrow> int option) \<Rightarrow> string option \<Rightarrow> int option \<Rightarrow> fetch \<Rightarrow> state \<Rightarrow> exn option \<times> state" where
  "search int_of_str query_arg page_arg f s =
     (case search_try int_of_str query_arg page_arg f s of
        (None, s') \<Rightarrow> (None, s')
      | (Some e, s') \<Rightarrow> (Some e, print [search_except e] s'))"

section \<open>SearchThread.run\<close>

text \<open>
  The \<^verbatim>\<open>except\<close> clauses of the loop body of \<^verbatim>\<open>run\<close>: what is printed and what
  happens to \<open>proxy_fail_counter\<close>.
\<close>

fun run_except :: "exn \<Rightarrow> thread \<Rightarrow> state \<Rightarrow> thread \<times> state" where
  "run_except InvalidPageException t s = (t, print [Page_number_invalid] s)"
| "run_except QuotaOverloadException t s = (t, print [Thread_quota_exceeded (name t)] s)"
| "run_except (HTTPError c) t s =
     (t\<lparr>proxy_fail_counter := proxy_fail_counter t + 1\<rparr>,
      print [Thread_HTTP_Error (name t) (HTTPError c)] s)"
| "run_except e t s =
     (t\<lparr>proxy_fail_counter := proxy_fail_counter t + 1\<rparr>, print [Thread_exception (name t) e] s)"

text \<open>\<^verbatim>\<open>requests.get(SEARCH_ENDPOINT, proxies=...)\<close> is sent; the thread waits for the reply.\<close>

definition send_request :: "thread \<Rightarrow> state \<Rightarrow> thread \<times> state" where
  "send_request t s = (t\<lparr>pc := Fetching\<rparr>, s\<lparr>sent := sent s @ [(query t, counter t, proxy t)]\<rparr>)"

text \<open>
  One step of \<^verbatim>\<open>run\<close> that does not wait for the network:
  \<^item> \<open>Start\<close>: the statements before the loop; \<^verbatim>\<open>PROXIES.pop()\<close> on an empty list raises
    outside every \<^verbatim>\<open>try\<close> and ends the thread;
  \<^item> \<open>Head\<close>: the test of the \<^verbatim>\<open>while\<close>;
  \<^item> \<open>Body\<close>: the body up to the call of \<^verbatim>\<open>requests.get\<close>, with the change of proxy at
    the fail limit (an empty pool raises inside the \<^verbatim>\<open>try\<close>);
  \<^item> \<open>Sleeping\<close>: \<^verbatim>\<open>time.sleep(1)\<close>;
  \<^item> \<open>Exiting\<close>: the statements after the loop.
\<close>

definition run_step :: "thread \<Rightarrow> state \<Rightarrow> thread \<times> state" where
  "run_step t s =
     (case pc t of
        Start \<Rightarrow>
          (let t1 = t\<lparr>counter := start_page t, proxy_fail_counter := 0\<rparr>
           in if PROXIES s = [] then (t1\<lparr>pc := Crashed\<rparr>, s)
              else (t1\<lparr>proxy := Some (last (PROXIES s)), pc := Head\<rparr>,
                    print [Thread_using_proxy (name t) (last (PROXIES s))]
                      (s\<lparr>PROXIES := butlast (PROXIES s)\<rparr>)))
      | Head \<Rightarrow>
          (if \<not> kill_received t \<and> counter t < end_page t then (t\<lparr>pc := Body\<rparr>, s)
           else (t\<lparr>pc := Exiting\<rparr>, s))
      | Body \<Rightarrow>
          (let s1 = print [Loop_condition (\<not> kill_received t \<or> counter t < end_page t)] s
           in if proxy_fail_counter t = PROXY_FAIL_LIMIT then
                (if PROXIES s1 = [] then
                   (let (t', s') = run_except IndexError t s1 in (t'\<lparr>pc := Sleeping\<rparr>, s'))
                 else send_request (t\<lparr>proxy := Some (last (PROXIES s1))\<rparr>)
                        (print [Thread_using_proxy (name t) (last (PROXIES s1))]
                           (s1\<lparr>PROXIES := butlast (PROXIES s1)\<rparr>)))
              else send_request t s1)
      | Fetching \<Rightarrow> (t, s)
      | Sleeping \<Rightarrow> (t\<lparr>pc := Head, slept := slept t + 1\<rparr>, s)
      | Exiting \<Rightarrow>
          (case proxy t of
             None \<Rightarrow> (t\<lparr>pc := Crashed\<rparr>, s)
           | Some p \<Rightarrow> (t\<lparr>pc := Finished\<rparr>,
                        print [Thread_finished (name t)] (s\<lparr>PROXIES := PROXIES s @ [p]\<rparr>)))
      | Finished \<Rightarrow> (t, s)
      | Crashed \<Rightarrow> (t, s))"

text \<open>
  The rest of the loop body, run when \<^verbatim>\<open>requests.get\<close> comes back with \<open>f\<close>: the
  status checks, the parsing of \<^verbatim>\<open>data\<close>, the counters, and the \<^verbatim>\<open>except\<close> clause
  taken if something raises. The thread is then at \<^verbatim>\<open>time.sleep(1)\<close>.
\<close>

definition run_reply :: "fetch \<Rightarrow> thread \<Rightarrow> state \<Rightarrow> thread \<times> state" where
  "run_reply f t s =
     (if pc t \<noteq> Fetching then (t, s)
      else
        (let (t', s') =
           (case f of
              Transport_failure \<Rightarrow> run_except ConnectionError t s
            | Response code body \<Rightarrow>
               (case raise_for_status code of
                  Some e \<Rightarrow> run_except e t s
                | None \<Rightarrow>
                   if code = 429 then run_except QuotaOverloadException t s
                   else (case body of
                      None \<Rightarrow> run_except JSONDecodeError t s
                    | Some (JObj kvs) \<Rightarrow>
                       (case py_iter (dict_get kvs ''data'' JNull) of
                          Inl e \<Rightarrow> run_except e t s
                        | Inr items \<Rightarrow>
                           (case append_results items (RESULTS s) of
                              (Some e, rs) \<Rightarrow> run_except e t (s\<lparr>RESULTS := rs\<rparr>)
                            | (None, rs) \<Rightarrow>
                               (t\<lparr>counter := counter t + 1, proxy_fail_counter := 0\<rparr>,
                                print [Thread_received (name t) (length items)]
                                  (s\<lparr>RESULTS := rs\<rparr>))))
                    | Some _ \<Rightarrow> run_except AttributeError t s)))
         in (t'\<lparr>pc := Sleeping\<rparr>, s')))"

section \<open>export and main\<close>

text \<open>\<^verbatim>\<open>obj.__dict__\<close> of a \<^verbatim>\<open>Result\<close>, and the document \<^verbatim>\<open>export\<close> dumps.\<close>

definition result_dict :: "result \<Rightarrow> json" where
  "result_dict r = JObj [(''title'', title r), (''link'', link r), (''description'', description r)]"

definition export_doc :: "result list \<Rightarrow> json" where
  "export_doc rs = JObj [(''results'', JArr (map result_dict rs))]"

definition export :: "string \<Rightarrow> state \<Rightarrow> state" where
  "export filepath s = s\<lparr>files := (filepath, export_doc (RESULTS s)) # files s\<rparr>"

text \<open>\<^verbatim>\<open>thread.isAlive()\<close>: started and \<^verbatim>\<open>run\<close> has not ended.\<close>

definition isAlive :: "thread \<Rightarrow> bool" where
  "isAlive t = (pc t \<noteq> Finished \<and> pc t \<noteq> Crashed)"

definition has_live_threads :: "state \<Rightarrow> bool" where
  "has_live_threads s = list_ex isAlive (THREADS s)"

text \<open>The parsed command line: \<^verbatim>\<open>--keyword\<close> (required), \<^verbatim>\<open>--output\<close> (the field \<open>output'\<close>), \<^verbatim>\<open>--page\<close>.\<close>

record args =
  keyword :: string
  output' :: "string option"
  page :: "int option"

text \<open>
  The first statement of \<^verbatim>\<open>main\<close>, the call of \<^verbatim>\<open>search\<close>, and \<^verbatim>\<open>counter = 0\<close>.
  \<^verbatim>\<open>search\<close> runs as one step: the threads it starts move only after it has returned.
\<close>

definition main_start :: "(string \<Rightarrow> int option) \<Rightarrow> args \<Rightarrow> fetch \<Rightarrow> state \<Rightarrow> state" where
  "main_start int_of_str a f s =
     (let (e, s') = search int_of_str (Some (keyword a))
                      (case page a of None \<Rightarrow> Some 1 | Some p \<Rightarrow> Some p) f s
      in s'\<lparr>main_pc := MLoop, main_counter := 0\<rparr>)"

text \<open>
  \<^verbatim>\<open>main\<close> at the head of its \<^verbatim>\<open>while\<close>: with a live thread it calls \<^verbatim>\<open>bye()\<close>
  (\<^verbatim>\<open>sys.exit(0)\<close>) when \<open>counter\<close> is 2 and joins otherwise; with none it leaves the
  loop, exports and returns.
\<close>

definition main_loop :: "args \<Rightarrow> state \<Rightarrow> state" where
  "main_loop a s =
     (if main_pc s \<noteq> MLoop then s
      else if has_live_threads s then
        (if main_counter s = 2 then (print [Counter_is (main_counter s)] s)\<lparr>main_pc := MExited\<rparr>
         else s\<lparr>main_pc := MJoin\<rparr>)
      else (case output' a of
              None \<Rightarrow> export ''results.json'' s
            | Some filepath \<Rightarrow> export filepath s)\<lparr>main_pc := MReturned\<rparr>)"

text \<open>
  \<^verbatim>\<open>KeyboardInterrupt\<close> in the main thread: inside the \<^verbatim>\<open>try\<close> (while joining) the
  handler sets \<open>kill_received\<close> on every thread and counts; at the head of the loop
  nothing catches it and \<^verbatim>\<open>main\<close> ends without exporting.
\<close>

definition interrupt :: "state \<Rightarrow> state" where
  "interrupt s =
     (case main_pc s of
        MJoin \<Rightarrow> (print [Stopping_threads] s)
                   \<lparr>THREADS := map (\<lambda>t. t\<lparr>kill_received := True\<rparr>) (THREADS s),
                    main_pc := MLoop, main_counter := main_counter s + 1\<rparr>
      | MLoop \<Rightarrow> s\<lparr>main_pc := MInterrupted\<rparr>
      | _ \<Rightarrow> s)"

section \<open>Runs\<close>

text \<open>
  What can happen next: thread \<open>i\<close> runs its next step, the request of thread \<open>i\<close> comes
  back, the main thread runs the head of its loop, its round of joins returns, or the
  user presses Ctrl-C. A run is a list of such events, in any order: the threads
  interleave freely, each step of a thread being one of the steps of \<open>run_step\<close> and
  \<open>run_reply\<close>. The threads are not daemon threads, so they go on after \<^verbatim>\<open>main\<close> has
  ended, also after \<^verbatim>\<open>sys.exit(0)\<close>; an event that finds its thread waiting, ended or
  absent changes nothing.
\<close>

datatype event = Sched nat | Reply nat fetch | Main_sched | Join_returns | Ctrl_C

definition on_thread :: "nat \<Rightarrow> (thread \<Rightarrow> state \<Rightarrow> thread \<times> state) \<Rightarrow> state \<Rightarrow> state" where
  "on_thread i stmt s =
     (if i < length (THREADS s) then
        (let (t', s') = stmt (THREADS s ! i) s in s'\<lparr>THREADS := (THREADS s')[i := t']\<rparr>)
      else s)"

fun step :: "args \<Rightarrow> event \<Rightarrow> state \<Rightarrow> state" where
  "step a (Sched i) s = on_thread i run_step s"
| "step a (Reply i f) s = on_thread i (run_reply f) s"
| "step a Main_sched s = main_loop a s"
| "step a Join_returns s = (if main_pc s = MJoin then s\<lparr>main_pc := MLoop\<rparr> else s)"
| "step a Ctrl_C s = interrupt s"

fun exec :: "args \<Rightarrow> event list \<Rightarrow> state \<Rightarrow> state" where
  "exec a [] s = s"
| "exec a (e # es) s = exec a es (step a e s)"

text \<open>The module as loaded, with the proxies it was configured with.\<close>

definition initial :: "string list \<Rightarrow> state" where
  "initial proxies =
     \<lparr>PROXIES = proxies, THREADS = [], RESULTS = [], sent = [], stdout = [], files = [],
      main_pc = MLoop, main_counter = 0\<rparr>"

text \<open>\<^verbatim>\<open>main(args)\<close> up to the events \<open>es\<close>, the first request answered by \<open>f\<close>.\<close>

definition main :: "(string \<Rightarrow> int option) \<Rightarrow> args \<Rightarrow> string list \<Rightarrow> fetch \<Rightarrow> event list \<Rightarrow> state" where
  "main int_of_str a proxies f es = exec a es (main_start int_of_str a f (initial proxies))"

section \<open>Notions used in the statements\<close>

text \<open>
  A reading of strings as integers that always raises. No response below carries a number
  as a string, so it is never consulted; it stands for the parameter in closed examples.
\<close>

definition unread :: "string \<Rightarrow> int option" where
  "unread s = None"

text \<open>The elements of \<^verbatim>\<open>data\<close> that are dicts, and the results read from them.\<close>

fun is_dict :: "json \<Rightarrow> bool" where
  "is_dict (JObj kvs) = True"
| "is_dict _ = False"

definition parsed :: "json list \<Rightarrow> result list" where
  "parsed items = concat (map (\<lambda>r. case mk_result r of Inl e \<Rightarrow> [] | Inr x \<Rightarrow> [x]) items)"

text \<open>A well-formed answer of the service for page \<open>c\<close> of \<open>l\<close>, and example inputs.\<close>

definition first_page :: "int \<Rightarrow> int \<Rightarrow> json list \<Rightarrow> fetch" where
  "first_page c l items =
     Response 200 (Some (JObj [(''total'', JInt 40), (''current_page'', JInt c),
                               (''last_page'', JInt l), (''data'', JArr items)]))"

definition item :: "string \<Rightarrow> json" where
  "item t = JObj [(''title'', JStr t), (''link'', JStr ''x.onion''), (''description'', JStr ''d'')]"

definition test_args :: args where
  "test_args = \<lparr>keyword = ''test'', output' = None, page = None\<rparr>"

text \<open>
  A thread holds a proxy from its first \<^verbatim>\<open>PROXIES.pop()\<close> until it appends the proxy
  back after its loop. \<open>handles\<close> counts the proxies held by threads and those in the pool.
\<close>

definition checked_out :: "thread \<Rightarrow> bool" where
  "checked_out t =
     ((pc t = Head \<or> pc t = Body \<or> pc t = Fetching \<or> pc t = Sleeping \<or> pc t = Exiting)
      \<and> proxy t \<noteq> None)"

definition handles :: "state \<Rightarrow> nat" where
  "handles s = length (filter checked_out (THREADS s)) + length (PROXIES s)"

text \<open>
  The event is a thread's step through \<^verbatim>\<open>if proxy_fail_counter == PROXY_FAIL_LIMIT:
  proxy = PROXIES.pop()\<close> with a proxy to pop: the proxy the thread held is overwritten.
  \<open>rotations\<close> counts these steps along a run.
\<close>

definition rotates :: "event \<Rightarrow> state \<Rightarrow> bool" where
  "rotates e s =
     (case e of
        Sched i \<Rightarrow> i < length (THREADS s) \<and> pc (THREADS s ! i) = Body
                   \<and> proxy_fail_counter (THREADS s ! i) = PROXY_FAIL_LIMIT
                   \<and> PROXIES s \<noteq> [] \<and> proxy (THREADS s ! i) \<noteq> None
      | _ \<Rightarrow> False)"

fun rotations :: "args \<Rightarrow> event list \<Rightarrow> state \<Rightarrow> nat" where
  "rotations a [] s = 0"
| "rotations a (e # es) s = (if rotates e s then 1 else 0) + rotations a es (step a e s)"

text \<open>Thread \<open>i\<close> goes \<open>n\<close> times round its loop, each request answered with status 500.\<close>

definition failing_rounds :: "nat \<Rightarrow> nat \<Rightarrow> event list" where
  "failing_rounds i n =
     concat (replicate n [Sched i, Sched i, Reply i (Response 500 None), Sched i])"

text \<open>
  The name, \<open>start_page\<close> and \<open>end_page\<close> of every thread, and the requests sent after
  \<^verbatim>\<open>search\<close> has returned, which are the requests of the threads.
\<close>

definition ranges :: "state \<Rightarrow> (nat \<times> int \<times> int) list" where
  "ranges s = map (\<lambda>t. (name t, start_page t, end_page t)) (THREADS s)"

definition thread_requests ::
  "(string \<Rightarrow> int option) \<Rightarrow> args \<Rightarrow> string list \<Rightarrow> fetch \<Rightarrow> event list \<Rightarrow> (string \<times> int \<times> string option) list" where
  "thread_requests int_of_str a proxies f es =
     drop (length (sent (main int_of_str a proxies f []))) (sent (main int_of_str a proxies f es))"

text \<open>
  Two facts about a thread that every step keeps. \<open>in_range l\<close>: the range ends at \<open>l\<close>
  at the latest and the body of the loop is only entered below \<open>end_page\<close>. \<open>idle\<close>:
  the range is empty and the thread is outside the body of its loop.
\<close>

definition in_range :: "int \<Rightarrow> thread \<Rightarrow> bool" where
  "in_range l t = (end_page t \<le> l \<and> (pc t = Body \<longrightarrow> counter t < end_page t))"

definition idle :: "thread \<Rightarrow> bool" where
  "idle t = (end_page t \<le> start_page t \<and> end_page t \<le> counter t \<and>
             (pc t = Start \<or> pc t = Head \<or> pc t = Exiting \<or> pc t = Finished \<or> pc t = Crashed))"

text \<open>
  The file \<^verbatim>\<open>main\<close> exports to, and what holds of the files all along a run: once
  \<^verbatim>\<open>main\<close> has returned no thread is alive and the one file written holds \<open>RESULTS\<close>;
  before that, and when \<^verbatim>\<open>main\<close> ended otherwise, nothing is written.
\<close>

definition export_path :: "args \<Rightarrow> string" where
  "export_path a = (case output' a of None \<Rightarrow> ''results.json'' | Some filepath \<Rightarrow> filepath)"

definition exported :: "args \<Rightarrow> state \<Rightarrow> bool" where
  "exported a s =
     (if main_pc s = MReturned
      then \<not> has_live_threads s \<and> files s = [(export_path a, export_doc (RESULTS s))]
      else files s = [])"

text \<open>Each of the threads \<open>0, ..., n - 1\<close> takes three steps, one thread after the other.\<close>

definition finish_all :: "nat \<Rightarrow> event list" where
  "finish_all n = concat (map (\<lambda>i. [Sched i, Sched i, Sched i]) [0..<n])"

text \<open>
  How far a thread whose \<open>kill_received\<close> is set can still be from the end of \<^verbatim>\<open>run\<close>,
  in steps.
\<close>

fun rank :: "pc \<Rightarrow> nat" where
  "rank Body = 5"
| "rank Fetching = 4"
| "rank Sleeping = 3"
| "rank Start = 3"
| "rank Head = 2"
| "rank Exiting = 1"
| "rank Finished = 0"
| "rank Crashed = 0"

text \<open>
  The event is the reply that thread \<open>i\<close> is waiting for; \<open>fetches_completed\<close> counts
  these events along a run.
\<close>

definition completes :: "nat \<Rightarrow> event \<Rightarrow> state \<Rightarrow> bool" where
  "completes i e s =
     (case e of
        Reply j f \<Rightarrow> j = i \<and> i < length (THREADS s) \<and> pc (THREADS s ! i) = Fetching
      | _ \<Rightarrow> False)"

fun fetches_completed :: "args \<Rightarrow> nat \<Rightarrow> event list \<Rightarrow> state \<Rightarrow> nat" where
  "fetches_completed a i [] s = 0"
| "fetches_completed a i (e # es) s =
     (if completes i e s then 1 else 0) + fetches_completed a i es (step a e s)"

text \<open>
  What a step of thread \<open>i\<close> appends to \<^verbatim>\<open>PROXIES\<close>, and all that thread \<open>i\<close> appends
  along a run.
\<close>

definition returns :: "args \<Rightarrow> nat \<Rightarrow> event \<Rightarrow> state \<Rightarrow> string list" where
  "returns a i e s =
     (if e = Sched i then drop (length (PROXIES s)) (PROXIES (step a e s)) else [])"

fun returned :: "args \<Rightarrow> nat \<Rightarrow> event list \<Rightarrow> state \<Rightarrow> string list" where
  "returned a i [] s = []"
| "returned a i (e # es) s = returns a i e s @ returned a i es (step a e s)"

text \<open>
  Two states of an example run with one proxy and pages 1 to 3: thread 0 has taken the
  proxy and sent its request for page 2; in the second state \<^verbatim>\<open>main\<close> has joined and
  Ctrl-C has set \<open>kill_received\<close> on every thread in the meantime.
\<close>

definition in_flight :: state where
  "in_flight = main unread test_args [''a''] (first_page 1 3 []) [Sched 0, Sched 0, Sched 0]"

definition cancelled_in_flight :: state where
  "cancelled_in_flight =
     main unread test_args [''a''] (first_page 1 3 []) [Sched 0, Sched 0, Sched 0, Main_sched, Ctrl_C]"

section \<open>Auxiliary facts\<close>

subsection \<open>Parsing\<close>

lemma append_results_parsed:
  "list_all is_dict items \<Longrightarrow> append_results items rs = (None, rs @ parsed items)"
proof (induction items arbitrary: rs)
  case Nil
  then show ?case by (simp add: parsed_def)
next
  case (Cons r items)
  then obtain kvs where "r = JObj kvs" by (cases r) auto
  with Cons show ?case by (simp add: parsed_def)
qed

lemma length_parsed: "list_all is_dict items \<Longrightarrow> length (parsed items) = length items"
proof (induction items)
  case Nil
  then show ?case by (simp add: parsed_def)
next
  case (Cons r items)
  then obtain kvs where "r = JObj kvs" by (cases r) auto
  with Cons show ?case by (simp add: parsed_def)
qed

subsection \<open>What a step leaves alone\<close>

lemma run_except_frame:
  "run_except e t s = (t', s') \<Longrightarrow>
     PROXIES s' = PROXIES s \<and> THREADS s' = THREADS s \<and> RESULTS s' = RESULTS s \<and> sent s' = sent s
     \<and> files s' = files s \<and> main_pc s' = main_pc s \<and> main_counter s' = main_counter s
     \<and> pc t' = pc t \<and> proxy t' = proxy t \<and> kill_received t' = kill_received t
     \<and> counter t' = counter t \<and> start_page t' = start_page t \<and> end_page t' = end_page t
     \<and> slept t' = slept t \<and> name t' = name t \<and> query t' = query t"
  by (cases e) (auto simp: print_def)

lemma run_step_frame:
  "run_step t s = (t', s') \<Longrightarrow>
     THREADS s' = THREADS s \<and> RESULTS s' = RESULTS s
     \<and> files s' = files s \<and> main_pc s' = main_pc s \<and> main_counter s' = main_counter s
     \<and> kill_received t' = kill_received t
     \<and> start_page t' = start_page t \<and> end_page t' = end_page t
     \<and> name t' = name t \<and> query t' = query t"
  by (auto simp: run_step_def print_def send_request_def Let_def split: pc.splits if_splits option.splits)

lemma run_reply_frame:
  "run_reply f t s = (t', s') \<Longrightarrow>
     PROXIES s' = PROXIES s \<and> THREADS s' = THREADS s \<and> sent s' = sent s
     \<and> files s' = files s \<and> main_pc s' = main_pc s \<and> main_counter s' = main_counter s
     \<and> kill_received t' = kill_received t \<and> proxy t' = proxy t
     \<and> start_page t' = start_page t \<and> end_page t' = end_page t
     \<and> slept t' = slept t \<and> name t' = name t \<and> query t' = query t"
  by (auto simp: run_reply_def print_def Let_def
      split: if_splits fetch.splits option.splits json.splits sum.splits prod.splits
      dest!: run_except_frame)


lemma filter_update_count:
  "i < length xs \<Longrightarrow>
     length (filter P (xs[i := y])) + (if P (xs ! i) then 1 else 0) =
     length (filter P xs) + (if P y then 1 else 0)"
proof (induction xs arbitrary: i)
  case Nil
  then show ?case by simp
next
  case (Cons x xs)
  show ?case
  proof (cases i)
    case 0
    then show ?thesis by simp
  next
    case (Suc j)
    with Cons.prems have "j < length xs" by simp
    from Cons.IH [OF this] Suc show ?thesis by simp
  qed
qed

lemma run_step_handles:
  "run_step t s = (t', s') \<Longrightarrow>
     (if checked_out t' then 1 else 0) + length (PROXIES s')
       + (if pc t = Body \<and> proxy_fail_counter t = PROXY_FAIL_LIMIT \<and> PROXIES s \<noteq> []
             \<and> proxy t \<noteq> None then 1 else 0)
     = (if checked_out t then (1::nat) else 0) + length (PROXIES s)"
  by (cases "pc t")
     (auto simp: run_step_def print_def send_request_def Let_def checked_out_def
           split: if_splits option.splits)

lemma run_reply_handles:
  "run_reply f t s = (t', s') \<Longrightarrow> checked_out t' = checked_out t \<and> PROXIES s' = PROXIES s"
proof -
  assume h: "run_reply f t s = (t', s')"
  from run_reply_frame [OF h] have fr: "proxy t' = proxy t" "PROXIES s' = PROXIES s" by simp_all
  have "pc t = Fetching \<Longrightarrow> pc t' = Sleeping"
    using h by (auto simp: run_reply_def split: prod.splits)
  moreover have "pc t \<noteq> Fetching \<Longrightarrow> t' = t"
    using h by (simp add: run_reply_def)
  ultimately show ?thesis using fr by (cases "pc t = Fetching") (auto simp: checked_out_def)
qed

lemma step_handles: "handles (step a e s) + (if rotates e s then 1 else 0) = handles s"
proof (cases e)
  case (Sched i)
  show ?thesis
  proof (cases "i < length (THREADS s)")
    case False
    then show ?thesis using Sched by (simp add: on_thread_def rotates_def)
  next
    case True
    obtain t' s' where r: "run_step (THREADS s ! i) s = (t', s')" by fastforce
    from run_step_frame [OF r] have th: "THREADS s' = THREADS s" by simp
    from filter_update_count [OF True, of checked_out t']
    have "length (filter checked_out ((THREADS s)[i := t'])) + (if checked_out (THREADS s ! i) then 1 else 0)
          = length (filter checked_out (THREADS s)) + (if checked_out t' then 1 else 0)" .
    with run_step_handles [OF r] True th r Sched show ?thesis
      by (simp add: on_thread_def handles_def rotates_def split: if_splits)
  qed
next
  case (Reply i f)
  show ?thesis
  proof (cases "i < length (THREADS s)")
    case False
    then show ?thesis using Reply by (simp add: on_thread_def rotates_def)
  next
    case True
    obtain t' s' where r: "run_reply f (THREADS s ! i) s = (t', s')" by fastforce
    from run_reply_frame [OF r] have th: "THREADS s' = THREADS s" by simp
    from filter_update_count [OF True, of checked_out t']
    have "length (filter checked_out ((THREADS s)[i := t'])) + (if checked_out (THREADS s ! i) then 1 else 0)
          = length (filter checked_out (THREADS s)) + (if checked_out t' then 1 else 0)" .
    with run_reply_handles [OF r] True th r Reply show ?thesis
      by (simp add: on_thread_def handles_def rotates_def split: if_splits)
  qed
next
  case Main_sched
  then show ?thesis
    by (simp add: main_loop_def handles_def rotates_def export_def print_def split: option.splits)
next
  case Join_returns
  then show ?thesis by (simp add: handles_def rotates_def)
next
  case Ctrl_C
  have "filter checked_out (map (\<lambda>t. t\<lparr>kill_received := True\<rparr>) ts) =
        map (\<lambda>t. t\<lparr>kill_received := True\<rparr>) (filter checked_out ts)" for ts
    by (induction ts) (auto simp: checked_out_def)
  with Ctrl_C show ?thesis
    by (simp add: interrupt_def handles_def rotates_def print_def split: main_pc.splits)
qed

lemma exec_handles: "handles (exec a es s) + rotations a es s = handles s"
proof (induction es arbitrary: s)
  case Nil
  then show ?case by simp
next
  case (Cons e es)
  from Cons.IH [of "step a e s"] step_handles [of a e s] show ?case by simp
qed

lemma spawn_frame:
  "spawn is q qpt lp tcp s = (r, s') \<Longrightarrow>
     PROXIES s' = PROXIES s \<and> RESULTS s' = RESULTS s \<and> sent s' = sent s \<and> files s' = files s"
proof (induction "is" arbitrary: tcp s)
  case Nil
  then show ?case by simp
next
  case (Cons i "is")
  show ?case
  proof (cases "py_num lp")
    case None
    with Cons.prems show ?thesis by simp
  next
    case (Some l)
    with Cons.prems Cons.IH show ?thesis
      by (fastforce simp: Let_def print_def)
  qed
qed

lemma spawn_started:
  "spawn is q qpt lp tcp s = (r, s') \<Longrightarrow> list_all (\<lambda>t. pc t = Start) (THREADS s) \<Longrightarrow>
     list_all (\<lambda>t. pc t = Start) (THREADS s')"
proof (induction "is" arbitrary: tcp s)
  case Nil
  then show ?case by simp
next
  case (Cons i "is")
  show ?case
  proof (cases "py_num lp")
    case None
    with Cons.prems show ?thesis by simp
  next
    case (Some l)
    let ?tlp = "if tcp + qpt > l then l else tcp + qpt"
    let ?s2 = "(print [Thread_Range i tcp ?tlp] s)\<lparr>THREADS := THREADS (print [Thread_Range i tcp ?tlp] s) @ [SearchThread i q tcp ?tlp]\<rparr>"
    from Cons.prems(1) Some have "spawn is q qpt lp (?tlp + 1) ?s2 = (r, s')"
      by (simp add: Let_def)
    moreover from Cons.prems(2) have "list_all (\<lambda>t. pc t = Start) (THREADS ?s2)"
      by (simp add: print_def SearchThread_def)
    ultimately show ?thesis by (rule Cons.IH)
  qed
qed

lemma spawn_facts:
  "spawn is q qpt lp tcp s = (r, s') \<Longrightarrow>
     PROXIES s' = PROXIES s \<and> RESULTS s' = RESULTS s \<and> sent s' = sent s \<and> files s' = files s \<and>
     (list_all (\<lambda>t. pc t = Start) (THREADS s) \<longrightarrow> list_all (\<lambda>t. pc t = Start) (THREADS s'))"
  using spawn_frame [of "is" q qpt lp tcp s r s'] spawn_started [of "is" q qpt lp tcp s r s']
  by blast

lemma dispatch_frame:
  "dispatch int_of_str q kvs s = (r, s') \<Longrightarrow>
     PROXIES s' = PROXIES s \<and> files s' = files s \<and> sent s' = sent s \<and>
     (list_all (\<lambda>t. pc t = Start) (THREADS s) \<longrightarrow> list_all (\<lambda>t. pc t = Start) (THREADS s'))"
  by (auto simp: dispatch_def Let_def print_def
      split: sum.splits prod.splits option.splits if_splits
      dest!: spawn_facts)

lemma search_frame:
  "search int_of_str qa pa f s = (r, s') \<Longrightarrow>
     PROXIES s' = PROXIES s \<and> files s' = files s \<and>
     (list_all (\<lambda>t. pc t = Start) (THREADS s) \<longrightarrow> list_all (\<lambda>t. pc t = Start) (THREADS s'))"
  by (auto simp: search_def search_try_def Let_def print_def
      split: sum.splits prod.splits option.splits if_splits fetch.splits json.splits
      dest!: dispatch_frame)

lemma handles_started:
  "list_all (\<lambda>t. pc t = Start) (THREADS s) \<Longrightarrow> handles s = length (PROXIES s)"
proof -
  have "list_all (\<lambda>t. pc t = Start) ts \<Longrightarrow> filter checked_out ts = []" for ts
    by (induction ts) (auto simp: checked_out_def)
  then show "list_all (\<lambda>t. pc t = Start) (THREADS s) \<Longrightarrow> handles s = length (PROXIES s)"
    by (simp add: handles_def)
qed

lemma main_start_handles: "handles (main_start int_of_str a f (initial proxies)) = length proxies"
proof -
  obtain r s' where h: "search int_of_str (Some (keyword a))
                      (case page a of None \<Rightarrow> Some 1 | Some p \<Rightarrow> Some p) f (initial proxies) = (r, s')"
    by fastforce
  from search_frame [OF h] have "PROXIES s' = proxies" "list_all (\<lambda>t. pc t = Start) (THREADS s')"
    by (simp_all add: initial_def)
  then have "handles (s'\<lparr>main_pc := MLoop, main_counter := 0\<rparr>) = length proxies"
    using handles_started [of "s'\<lparr>main_pc := MLoop, main_counter := 0\<rparr>"] by simp
  with h show ?thesis by (simp add: main_start_def)
qed


subsection \<open>A step seen from one thread\<close>

lemma nth_on_thread:
  assumes "\<And>t s t' s'. stmt t s = (t', s') \<Longrightarrow> THREADS s' = THREADS s"
  shows "THREADS (on_thread i stmt s) =
           (if i < length (THREADS s) then (THREADS s)[i := fst (stmt (THREADS s ! i) s)] else THREADS s)"
proof (cases "i < length (THREADS s)")
  case False
  then show ?thesis by (simp add: on_thread_def)
next
  case True
  obtain t' s' where r: "stmt (THREADS s ! i) s = (t', s')" by fastforce
  from assms [OF r] True r show ?thesis by (simp add: on_thread_def)
qed

lemma THREADS_Sched:
  "THREADS (step a (Sched i) s) =
     (if i < length (THREADS s) then (THREADS s)[i := fst (run_step (THREADS s ! i) s)] else THREADS s)"
  using nth_on_thread [of run_step i s] run_step_frame by simp

lemma THREADS_Reply:
  "THREADS (step a (Reply i f) s) =
     (if i < length (THREADS s) then (THREADS s)[i := fst (run_reply f (THREADS s ! i) s)] else THREADS s)"
  using nth_on_thread [of "run_reply f" i s] run_reply_frame by simp

lemma THREADS_Main_sched: "THREADS (step a Main_sched s) = THREADS s"
  by (simp add: main_loop_def export_def print_def split: option.splits)

lemma THREADS_Join_returns: "THREADS (step a Join_returns s) = THREADS s"
  by simp

lemma THREADS_Ctrl_C:
  "THREADS (step a Ctrl_C s) =
     (if main_pc s = MJoin then map (\<lambda>t. t\<lparr>kill_received := True\<rparr>) (THREADS s) else THREADS s)"
  by (simp add: interrupt_def print_def split: main_pc.splits)

lemma length_THREADS_step: "length (THREADS (step a e s)) = length (THREADS s)"
  by (cases e)
     (simp_all add: THREADS_Sched THREADS_Reply THREADS_Main_sched THREADS_Join_returns THREADS_Ctrl_C
        del: step.simps)

lemma on_thread_field:
  assumes "\<And>t s t' s'. stmt t s = (t', s') \<Longrightarrow> g s' = g s"
    and "\<And>s ts. g (s\<lparr>THREADS := ts\<rparr>) = g s"
  shows "g (on_thread i stmt s) = g s"
proof (cases "i < length (THREADS s)")
  case False
  then show ?thesis by (simp add: on_thread_def)
next
  case True
  obtain t' s' where r: "stmt (THREADS s ! i) s = (t', s')" by fastforce
  from assms(1) [OF r] assms(2) True r show ?thesis by (simp add: on_thread_def)
qed

lemma list_all_update: "list_all P xs \<Longrightarrow> P y \<Longrightarrow> list_all P (xs[i := y])"
  by (induction xs arbitrary: i) (auto split: nat.splits)

lemma list_all_nth: "list_all P xs \<Longrightarrow> i < length xs \<Longrightarrow> P (xs ! i)"
  by (simp add: list_all_length)

subsection \<open>Threads with an empty range\<close>

lemma idle_run_step:
  "idle t \<Longrightarrow> run_step t s = (t', s') \<Longrightarrow> idle t' \<and> sent s' = sent s \<and> RESULTS s' = RESULTS s"
  by (cases "pc t") (auto simp: idle_def run_step_def print_def Let_def split: if_splits option.splits)

lemma idle_run_reply: "idle t \<Longrightarrow> run_reply f t s = (t, s)"
  by (auto simp: idle_def run_reply_def)

lemma idle_step:
  assumes "list_all idle (THREADS s)"
  shows "list_all idle (THREADS (step a e s)) \<and> sent (step a e s) = sent s
           \<and> RESULTS (step a e s) = RESULTS s"
proof (cases e)
  case (Sched i)
  show ?thesis
  proof (cases "i < length (THREADS s)")
    case False
    with assms Sched show ?thesis by (simp add: on_thread_def)
  next
    case True
    obtain t' s' where r: "run_step (THREADS s ! i) s = (t', s')" by fastforce
    from list_all_nth [OF assms True] have "idle (THREADS s ! i)" .
    from idle_run_step [OF this r] run_step_frame [OF r] list_all_update [OF assms, of t' i] True r Sched
    show ?thesis by (simp add: on_thread_def)
  qed
next
  case (Reply i f)
  show ?thesis
  proof (cases "i < length (THREADS s)")
    case False
    with assms Reply show ?thesis by (simp add: on_thread_def)
  next
    case True
    from list_all_nth [OF assms True] have "idle (THREADS s ! i)" .
    from idle_run_reply [OF this, of f s] assms True Reply
    show ?thesis by (simp add: on_thread_def)
  qed
next
  case Main_sched
  with assms show ?thesis
    by (simp add: main_loop_def export_def print_def split: option.splits)
next
  case Join_returns
  with assms show ?thesis by simp
next
  case Ctrl_C
  have "list_all idle ts \<Longrightarrow> list_all idle (map (\<lambda>t. t\<lparr>kill_received := True\<rparr>) ts)" for ts
    by (induction ts) (auto simp: idle_def)
  with assms Ctrl_C show ?thesis
    by (simp add: interrupt_def print_def split: main_pc.splits)
qed

lemma idle_exec:
  "list_all idle (THREADS s) \<Longrightarrow>
     list_all idle (THREADS (exec a es s)) \<and> sent (exec a es s) = sent s
       \<and> RESULTS (exec a es s) = RESULTS s"
proof (induction es arbitrary: s)
  case Nil
  then show ?case by simp
next
  case (Cons e es)
  from idle_step [OF Cons.prems, of a e] Cons.IH [of "step a e s"] show ?case by simp
qed

subsection \<open>The pages a thread asks for\<close>

lemma in_range_run_step:
  "in_range l t \<Longrightarrow> run_step t s = (t', s') \<Longrightarrow>
     in_range l t' \<and> (\<exists>w. sent s' = sent s @ w \<and> l \<notin> (\<lambda>r. fst (snd r)) ` set w)"
  by (cases "pc t")
     (auto simp: in_range_def run_step_def print_def send_request_def Let_def
           split: if_splits option.splits)

lemma in_range_run_reply:
  "in_range l t \<Longrightarrow> run_reply f t s = (t', s') \<Longrightarrow> in_range l t' \<and> sent s' = sent s"
proof -
  assume a: "in_range l t" and h: "run_reply f t s = (t', s')"
  from run_reply_frame [OF h] have fr: "end_page t' = end_page t" "sent s' = sent s" by simp_all
  have "pc t = Fetching \<Longrightarrow> pc t' = Sleeping"
    using h by (auto simp: run_reply_def split: prod.splits)
  moreover have "pc t \<noteq> Fetching \<Longrightarrow> t' = t"
    using h by (simp add: run_reply_def)
  ultimately show ?thesis using fr a by (cases "pc t = Fetching") (auto simp: in_range_def)
qed

lemma in_range_step:
  assumes "list_all (in_range l) (THREADS s)"
  shows "list_all (in_range l) (THREADS (step a e s)) \<and>
         (\<exists>w. sent (step a e s) = sent s @ w \<and> l \<notin> (\<lambda>r. fst (snd r)) ` set w)"
proof (cases e)
  case (Sched i)
  show ?thesis
  proof (cases "i < length (THREADS s)")
    case False
    with assms Sched show ?thesis by (simp add: on_thread_def)
  next
    case True
    obtain t' s' where r: "run_step (THREADS s ! i) s = (t', s')" by fastforce
    from list_all_nth [OF assms True] have "in_range l (THREADS s ! i)" .
    from in_range_run_step [OF this r] run_step_frame [OF r] list_all_update [OF assms, of t' i] True r Sched
    show ?thesis by (simp add: on_thread_def)
  qed
next
  case (Reply i f)
  show ?thesis
  proof (cases "i < length (THREADS s)")
    case False
    with assms Reply show ?thesis by (simp add: on_thread_def)
  next
    case True
    obtain t' s' where r: "run_reply f (THREADS s ! i) s = (t', s')" by fastforce
    from list_all_nth [OF assms True] have "in_range l (THREADS s ! i)" .
    from in_range_run_reply [OF this r] run_reply_frame [OF r] list_all_update [OF assms, of t' i] True r Reply
    show ?thesis by (simp add: on_thread_def)
  qed
next
  case Main_sched
  with assms show ?thesis
    by (simp add: main_loop_def export_def print_def split: option.splits)
next
  case Join_returns
  with assms show ?thesis by simp
next
  case Ctrl_C
  have "list_all (in_range l) ts \<Longrightarrow> list_all (in_range l) (map (\<lambda>t. t\<lparr>kill_received := True\<rparr>) ts)" for ts
    by (induction ts) (auto simp: in_range_def)
  with assms Ctrl_C show ?thesis
    by (simp add: interrupt_def print_def split: main_pc.splits)
qed

lemma in_range_exec:
  "list_all (in_range l) (THREADS s) \<Longrightarrow>
     \<exists>w. sent (exec a es s) = sent s @ w \<and> l \<notin> (\<lambda>r. fst (snd r)) ` set w"
proof (induction es arbitrary: s)
  case Nil
  then show ?case by simp
next
  case (Cons e es)
  from in_range_step [OF Cons.prems, of a e]
  obtain w where w: "sent (step a e s) = sent s @ w" "l \<notin> (\<lambda>r. fst (snd r)) ` set w"
    and inv: "list_all (in_range l) (THREADS (step a e s))" by blast
  from Cons.IH [OF inv]
  obtain w' where w': "sent (exec a es (step a e s)) = sent (step a e s) @ w'"
    "l \<notin> (\<lambda>r. fst (snd r)) ` set w'" by blast
  from w w' have "sent (exec a (e # es) s) = sent s @ (w @ w')"
    "l \<notin> (\<lambda>r. fst (snd r)) ` set (w @ w')" by auto
  then show ?case by blast
qed

lemma spawn_in_range:
  "spawn is q qpt lp tcp s = (r, s') \<Longrightarrow> py_num lp = Some l \<Longrightarrow>
     list_all (in_range l) (THREADS s) \<Longrightarrow> list_all (in_range l) (THREADS s')"
proof (induction "is" arbitrary: tcp s)
  case Nil
  then show ?case by simp
next
  case (Cons i "is")
  let ?tlp = "if tcp + qpt > l then l else tcp + qpt"
  let ?s2 = "(print [Thread_Range i tcp ?tlp] s)\<lparr>THREADS := THREADS (print [Thread_Range i tcp ?tlp] s) @ [SearchThread i q tcp ?tlp]\<rparr>"
  from Cons.prems(1,2) have sp: "spawn is q qpt lp (?tlp + 1) ?s2 = (r, s')"
    by (simp add: Let_def)
  have "in_range l (SearchThread i q tcp ?tlp)"
    by (simp add: SearchThread_def in_range_def)
  with Cons.prems(3) have inv: "list_all (in_range l) (THREADS ?s2)"
    by (simp add: print_def)
  from Cons.IH [OF sp Cons.prems(2) inv] show ?case .
qed

lemma main_start_in_range:
  "list_all (in_range l) (THREADS (main_start int_of_str a (first_page c l items) (initial proxies)))"
proof -
  have "search int_of_str qa pa (first_page c l items) (initial proxies) = (r, s')
          \<Longrightarrow> list_all (in_range l) (THREADS s')" for qa pa r s'
    by (auto simp: search_def search_try_def first_page_def dispatch_def dict_get_def initial_def
          raise_for_status_def Let_def print_def
        split: option.splits if_splits prod.splits sum.splits
        dest!: spawn_in_range [where l = l])
  then show ?thesis
    by (auto simp: main_start_def split: prod.splits)
qed

lemma last_page_not_requested:
  "l \<notin> (\<lambda>r. fst (snd r)) ` set (thread_requests int_of_str a proxies (first_page c l items) es)"
proof -
  from in_range_exec [OF main_start_in_range [of l int_of_str a c items proxies], of a es]
  obtain w where w: "sent (main int_of_str a proxies (first_page c l items) es)
        = sent (main int_of_str a proxies (first_page c l items) []) @ w"
     "l \<notin> (\<lambda>r. fst (snd r)) ` set w"
    by (auto simp: main_def)
  then show ?thesis by (simp add: thread_requests_def)
qed

subsection \<open>What is exported\<close>

lemma dead_thread_step:
  assumes "\<not> has_live_threads s"
  shows "step a (Sched i) s = s" and "step a (Reply i f) s = s"
proof -
  have dead: "\<not> isAlive (THREADS s ! i)" if "i < length (THREADS s)"
    using assms that by (auto simp: has_live_threads_def list_ex_length)
  show "step a (Sched i) s = s"
  proof (cases "i < length (THREADS s)")
    case False
    then show ?thesis by (simp add: on_thread_def)
  next
    case True
    from dead [OF True] have "run_step (THREADS s ! i) s = (THREADS s ! i, s)"
      by (auto simp: isAlive_def run_step_def)
    with True show ?thesis by (simp add: on_thread_def)
  qed
  show "step a (Reply i f) s = s"
  proof (cases "i < length (THREADS s)")
    case False
    then show ?thesis by (simp add: on_thread_def)
  next
    case True
    from dead [OF True] have "run_reply f (THREADS s ! i) s = (THREADS s ! i, s)"
      by (auto simp: isAlive_def run_reply_def)
    with True show ?thesis by (simp add: on_thread_def)
  qed
qed

lemma step_thread_frame:
  "files (step a (Sched i) s) = files s \<and> main_pc (step a (Sched i) s) = main_pc s \<and>
   main_counter (step a (Sched i) s) = main_counter s \<and>
   files (step a (Reply i f) s) = files s \<and> main_pc (step a (Reply i f) s) = main_pc s \<and>
   main_counter (step a (Reply i f) s) = main_counter s"
proof -
  have "files (on_thread i run_step s) = files s" "main_pc (on_thread i run_step s) = main_pc s"
    "main_counter (on_thread i run_step s) = main_counter s"
    by (rule on_thread_field; simp add: run_step_frame)+
  moreover have "files (on_thread i (run_reply f) s) = files s"
    "main_pc (on_thread i (run_reply f) s) = main_pc s"
    "main_counter (on_thread i (run_reply f) s) = main_counter s"
    by (rule on_thread_field; simp add: run_reply_frame)+
  ultimately show ?thesis by simp
qed

lemma exported_step: "exported a s \<Longrightarrow> exported a (step a e s)"
proof (cases e)
  case (Sched i)
  assume ex: "exported a s"
  show ?thesis
  proof (cases "main_pc s = MReturned")
    case True
    with ex have "\<not> has_live_threads s" by (simp add: exported_def)
    from dead_thread_step(1) [OF this] ex Sched show ?thesis by simp
  next
    case False
    with ex step_thread_frame [of a i s] Sched show ?thesis by (simp add: exported_def)
  qed
next
  case (Reply i f)
  assume ex: "exported a s"
  show ?thesis
  proof (cases "main_pc s = MReturned")
    case True
    with ex have "\<not> has_live_threads s" by (simp add: exported_def)
    from dead_thread_step(2) [OF this] ex Reply show ?thesis by simp
  next
    case False
    with ex step_thread_frame [of a i s] Reply show ?thesis by (simp add: exported_def)
  qed
next
  case Main_sched
  assume "exported a s"
  with Main_sched show ?thesis
    by (auto simp: exported_def main_loop_def export_def export_path_def print_def
          has_live_threads_def split: option.splits)
next
  case Join_returns
  assume "exported a s"
  with Join_returns show ?thesis by (auto simp: exported_def has_live_threads_def)
next
  case Ctrl_C
  assume "exported a s"
  with Ctrl_C show ?thesis
    by (auto simp: exported_def interrupt_def print_def has_live_threads_def split: main_pc.splits)
qed

lemma exported_exec: "exported a s \<Longrightarrow> exported a (exec a es s)"
  by (induction es arbitrary: s) (simp_all add: exported_step)

lemma exported_main_start: "exported a (main_start int_of_str a f (initial proxies))"
proof -
  obtain r s' where h: "search int_of_str (Some (keyword a))
                      (case page a of None \<Rightarrow> Some 1 | Some p \<Rightarrow> Some p) f (initial proxies) = (r, s')"
    by fastforce
  from search_frame [OF h] have "files s' = []" by (simp add: initial_def)
  with h show ?thesis by (simp add: main_start_def exported_def)
qed

subsection \<open>No page left after the first\<close>

lemma ranges_step: "ranges (step a e s) = ranges s"
proof (cases e)
  case (Sched i)
  show ?thesis
  proof (cases "i < length (THREADS s)")
    case False
    then show ?thesis using Sched by (simp add: on_thread_def)
  next
    case True
    obtain t' s' where r: "run_step (THREADS s ! i) s = (t', s')" by fastforce
    from run_step_frame [OF r] True r Sched show ?thesis
      by (simp add: on_thread_def ranges_def map_update list_update_same_conv)
  qed
next
  case (Reply i f)
  show ?thesis
  proof (cases "i < length (THREADS s)")
    case False
    then show ?thesis using Reply by (simp add: on_thread_def)
  next
    case True
    obtain t' s' where r: "run_reply f (THREADS s ! i) s = (t', s')" by fastforce
    from run_reply_frame [OF r] True r Reply show ?thesis
      by (simp add: on_thread_def ranges_def map_update list_update_same_conv)
  qed
next
  case Main_sched
  then show ?thesis by (simp add: ranges_def main_loop_def export_def print_def split: option.splits)
next
  case Join_returns
  then show ?thesis by (simp add: ranges_def)
next
  case Ctrl_C
  then show ?thesis
    by (simp add: ranges_def interrupt_def print_def comp_def split: main_pc.splits)
qed

lemma ranges_exec: "ranges (exec a es s) = ranges s"
  by (induction es arbitrary: s) (simp_all add: ranges_step)

lemma spawn_empty_ranges:
  "spawn is q 0 (JInt c) (c + 1) s = (r, s') \<Longrightarrow>
     r = None \<and> THREADS s' = THREADS s @ map (\<lambda>i. SearchThread i q (c + 1) c) is \<and>
     RESULTS s' = RESULTS s \<and> sent s' = sent s \<and> PROXIES s' = PROXIES s"
proof (induction "is" arbitrary: s)
  case Nil
  then show ?case by simp
next
  case (Cons i "is")
  let ?s2 = "(print [Thread_Range i (c + 1) c] s)\<lparr>THREADS := THREADS (print [Thread_Range i (c + 1) c] s) @ [SearchThread i q (c + 1) c]\<rparr>"
  from Cons.prems have "spawn is q 0 (JInt c) (c + 1) ?s2 = (r, s')" by (simp add: Let_def)
  from Cons.IH [OF this] show ?case by (simp add: print_def)
qed

lemma main_start_no_remaining:
  assumes "keyword a \<noteq> []" and "page a = None \<or> (\<exists>p. page a = Some p \<and> 1 \<le> p)"
    and "\<not> (400 \<le> code \<and> code < 600)"
    and "dict_get kvs ''total'' JNull \<noteq> JNull"
    and "dict_get kvs ''current_page'' (JInt 1) = JInt c"
    and "dict_get kvs ''last_page'' JNull = JInt c"
    and "dict_get kvs ''data'' JNull = JArr items" and "list_all is_dict items"
  shows "THREADS (main_start int_of_str a (Response code (Some (JObj kvs))) (initial proxies))
           = map (\<lambda>i. SearchThread i (keyword a) (c + 1) c) [0..<5] \<and>
         RESULTS (main_start int_of_str a (Response code (Some (JObj kvs))) (initial proxies))
           = parsed items"
proof -
  have code: "code \<noteq> 429" "raise_for_status code = None"
    using assms(3) by (auto simp: raise_for_status_def)
  have ap: "append_results items [] = (None, parsed items)"
    using append_results_parsed [OF assms(8), of "[]"] by simp
  have "THREADS s' = map (\<lambda>i. SearchThread i (keyword a) (c + 1) c) [0..<5] \<and> RESULTS s' = parsed items"
    if "1 \<le> p" and "search int_of_str (Some (keyword a)) (Some p) (Response code (Some (JObj kvs))) (initial proxies) = (r, s')"
    for p r s'
    using that assms(1,4,5,6,7) code ap
    by (auto simp: search_def search_try_def dispatch_def initial_def Let_def print_def
          ceil_div_def NUMBER_OF_THREADS_def
        split: prod.splits option.splits if_splits
        dest!: spawn_empty_ranges)
  note body = this
  from assms(2) obtain p where p: "1 \<le> p"
    "(case page a of None \<Rightarrow> Some 1 | Some p \<Rightarrow> Some p) = Some p" by auto
  obtain r s' where h: "search int_of_str (Some (keyword a)) (Some p)
                          (Response code (Some (JObj kvs))) (initial proxies) = (r, s')"
    by fastforce
  from body [OF p(1) h] h p(2) show ?thesis by (simp add: main_start_def)
qed

subsection \<open>A thread whose flag is set\<close>

lemma nth_step:
  assumes "i < length (THREADS s)"
  shows "THREADS (step a e s) ! i =
     (case e of
        Sched j \<Rightarrow> if j = i then fst (run_step (THREADS s ! i) s) else THREADS s ! i
      | Reply j f \<Rightarrow> if j = i then fst (run_reply f (THREADS s ! i) s) else THREADS s ! i
      | Ctrl_C \<Rightarrow> if main_pc s = MJoin then (THREADS s ! i)\<lparr>kill_received := True\<rparr> else THREADS s ! i
      | _ \<Rightarrow> THREADS s ! i)"
  using assms
  by (cases e)
     (simp_all add: THREADS_Sched THREADS_Reply THREADS_Main_sched THREADS_Join_returns THREADS_Ctrl_C
        del: step.simps)

lemma PROXIES_Sched:
  "i < length (THREADS s) \<Longrightarrow> PROXIES (step a (Sched i) s) = PROXIES (snd (run_step (THREADS s ! i) s))"
  by (simp add: on_thread_def split: prod.splits)

lemma kill_run_step:
  assumes "kill_received t" and "run_step t s = (t', s')"
  shows "kill_received t' \<and> rank (pc t') \<le> rank (pc t) \<and>
         (isAlive t \<and> pc t \<noteq> Fetching \<longrightarrow> rank (pc t') < rank (pc t)) \<and>
         (pc t = Head \<longrightarrow> pc t' = Exiting) \<and>
         (checked_out t \<longrightarrow>
            (checked_out t' \<and> drop (length (PROXIES s)) (PROXIES s') = []) \<or>
            (pc t' = Finished \<and> (\<exists>p. proxy t' = Some p \<and> drop (length (PROXIES s)) (PROXIES s') = [p]))) \<and>
         (\<not> isAlive t \<longrightarrow> t' = t \<and> s' = s)"
  using assms
  by (cases "pc t")
     (auto simp: run_step_def print_def send_request_def Let_def checked_out_def isAlive_def
           split: if_splits option.splits)

lemma kill_run_reply:
  assumes "run_reply f t s = (t', s')"
  shows "kill_received t' = kill_received t \<and> checked_out t' = checked_out t \<and>
         (pc t = Fetching \<longrightarrow> pc t' = Sleeping) \<and> (pc t \<noteq> Fetching \<longrightarrow> t' = t \<and> s' = s)"
proof -
  have "pc t = Fetching \<Longrightarrow> pc t' = Sleeping"
    using assms by (auto simp: run_reply_def split: prod.splits)
  moreover have "pc t \<noteq> Fetching \<Longrightarrow> t' = t \<and> s' = s"
    using assms by (simp add: run_reply_def)
  ultimately show ?thesis
    using run_reply_frame [OF assms] run_reply_handles [OF assms] by blast
qed

text \<open>One event, seen from a thread whose flag is set.\<close>

lemma kill_step:
  assumes i: "i < length (THREADS s)" and k: "kill_received (THREADS s ! i)"
  shows "kill_received (THREADS (step a e s) ! i) \<and>
         rank (pc (THREADS (step a e s) ! i)) \<le> rank (pc (THREADS s ! i)) \<and>
         (if completes i e s then 1 else 0) + (if 4 \<le> rank (pc (THREADS (step a e s) ! i)) then 1 else 0)
            \<le> (if 4 \<le> rank (pc (THREADS s ! i)) then (1::nat) else 0) \<and>
         (checked_out (THREADS s ! i) \<longrightarrow>
            (checked_out (THREADS (step a e s) ! i) \<and> returns a i e s = []) \<or>
            (pc (THREADS (step a e s) ! i) = Finished \<and>
             (\<exists>p. proxy (THREADS (step a e s) ! i) = Some p \<and> returns a i e s = [p]))) \<and>
         (pc (THREADS s ! i) = Finished \<longrightarrow>
            pc (THREADS (step a e s) ! i) = Finished \<and>
            proxy (THREADS (step a e s) ! i) = proxy (THREADS s ! i) \<and> returns a i e s = [])"
proof (cases e)
  case (Sched j)
  show ?thesis
  proof (cases "j = i")
    case False
    with Sched i k show ?thesis
      by (simp add: nth_step completes_def returns_def del: step.simps)
  next
    case True
    obtain t' s' where r: "run_step (THREADS s ! i) s = (t', s')" by fastforce
    from kill_run_step [OF k r] r Sched True i show ?thesis
      by (auto simp: nth_step PROXIES_Sched completes_def returns_def isAlive_def simp del: step.simps)
  qed
next
  case (Reply j f)
  show ?thesis
  proof (cases "j = i")
    case False
    with Reply i k show ?thesis
      by (simp add: nth_step completes_def returns_def del: step.simps)
  next
    case True
    obtain t' s' where r: "run_reply f (THREADS s ! i) s = (t', s')" by fastforce
    from kill_run_reply [OF r] r Reply True i k show ?thesis
      by (cases "pc (THREADS s ! i) = Fetching")
         (auto simp: nth_step completes_def returns_def simp del: step.simps)
  qed
next
  case Main_sched
  with i k show ?thesis by (simp add: nth_step completes_def returns_def del: step.simps)
next
  case Join_returns
  with i k show ?thesis by (simp add: nth_step completes_def returns_def del: step.simps)
next
  case Ctrl_C
  with i k show ?thesis
    by (simp add: nth_step completes_def returns_def checked_out_def del: step.simps)
qed

lemma finished_exec:
  assumes "i < length (THREADS s)" and "kill_received (THREADS s ! i)"
    and "pc (THREADS s ! i) = Finished"
  shows "pc (THREADS (exec a es s) ! i) = Finished \<and>
         proxy (THREADS (exec a es s) ! i) = proxy (THREADS s ! i) \<and> returned a i es s = []"
  using assms
proof (induction es arbitrary: s)
  case Nil
  then show ?case by simp
next
  case (Cons e es)
  note st = kill_step [OF Cons.prems(1,2), of a e]
  have i': "i < length (THREADS (step a e s))" using Cons.prems(1) by (simp add: length_THREADS_step)
  from st Cons.prems(3) have f': "pc (THREADS (step a e s) ! i) = Finished"
    "proxy (THREADS (step a e s) ! i) = proxy (THREADS s ! i)" "returns a i e s = []"
    "kill_received (THREADS (step a e s) ! i)" by simp_all
  from Cons.IH [OF i' f'(4) f'(1)] f' show ?case by simp
qed

lemma kill_exec:
  assumes "i < length (THREADS s)" and "kill_received (THREADS s ! i)"
  shows "kill_received (THREADS (exec a es s) ! i) \<and>
         rank (pc (THREADS (exec a es s) ! i)) \<le> rank (pc (THREADS s ! i)) \<and>
         fetches_completed a i es s \<le> (if 4 \<le> rank (pc (THREADS s ! i)) then 1 else 0) \<and>
         (checked_out (THREADS s ! i) \<longrightarrow>
            (checked_out (THREADS (exec a es s) ! i) \<and> returned a i es s = []) \<or>
            (pc (THREADS (exec a es s) ! i) = Finished \<and>
             (\<exists>p. proxy (THREADS (exec a es s) ! i) = Some p \<and> returned a i es s = [p])))"
  using assms
proof (induction es arbitrary: s)
  case Nil
  then show ?case by simp
next
  case (Cons e es)
  let ?s1 = "step a e s"
  note st = kill_step [OF Cons.prems, of a e]
  have i': "i < length (THREADS ?s1)" using Cons.prems(1) by (simp add: length_THREADS_step)
  from st have k': "kill_received (THREADS ?s1 ! i)" by simp
  note ih = Cons.IH [OF i' k']
  have a1: "kill_received (THREADS (exec a (e # es) s) ! i)" using ih by simp
  have a2: "rank (pc (THREADS (exec a (e # es) s) ! i)) \<le> rank (pc (THREADS s ! i))"
    using ih st by simp
  have a3: "fetches_completed a i (e # es) s \<le> (if 4 \<le> rank (pc (THREADS s ! i)) then 1 else 0)"
  proof -
    from ih have "fetches_completed a i es ?s1 \<le> (if 4 \<le> rank (pc (THREADS ?s1 ! i)) then 1 else 0)"
      by simp
    moreover from st have "(if completes i e s then 1 else 0)
        + (if 4 \<le> rank (pc (THREADS ?s1 ! i)) then 1 else 0)
        \<le> (if 4 \<le> rank (pc (THREADS s ! i)) then (1::nat) else 0)" by simp
    ultimately show ?thesis by (simp split: if_splits)
  qed
  have a4: "(checked_out (THREADS (exec a (e # es) s) ! i) \<and> returned a i (e # es) s = []) \<or>
            (pc (THREADS (exec a (e # es) s) ! i) = Finished \<and>
             (\<exists>p. proxy (THREADS (exec a (e # es) s) ! i) = Some p \<and> returned a i (e # es) s = [p]))"
    if co: "checked_out (THREADS s ! i)"
  proof -
    from st co consider
        (held) "checked_out (THREADS ?s1 ! i)" "returns a i e s = []"
      | (released) p where "pc (THREADS ?s1 ! i) = Finished" "proxy (THREADS ?s1 ! i) = Some p"
          "returns a i e s = [p]"
      by blast
    then show ?thesis
    proof cases
      case held
      with ih show ?thesis by simp
    next
      case released
      from finished_exec [OF i' k' released(1), of a es] released show ?thesis by simp
    qed
  qed
  from a1 a2 a3 a4 show ?case by blast
qed

subsection \<open>A reply with a list of dicts\<close>

lemma reply_with_dicts:
  assumes "i < length (THREADS s)" and "pc (THREADS s ! i) = Fetching"
    and "\<not> (400 \<le> code \<and> code < 600)"
    and "dict_get kvs ''data'' JNull = JArr items" and "list_all is_dict items"
  shows "RESULTS (step a (Reply i (Response code (Some (JObj kvs)))) s) = RESULTS s @ parsed items \<and>
         length (parsed items) = length items \<and>
         counter (THREADS (step a (Reply i (Response code (Some (JObj kvs)))) s) ! i)
           = counter (THREADS s ! i) + 1 \<and>
         proxy_fail_counter (THREADS (step a (Reply i (Response code (Some (JObj kvs)))) s) ! i) = 0 \<and>
         pc (THREADS (step a (Reply i (Response code (Some (JObj kvs)))) s) ! i) = Sleeping \<and>
         pc (THREADS (step a (Sched i) (step a (Reply i (Response code (Some (JObj kvs)))) s)) ! i) = Head \<and>
         slept (THREADS (step a (Sched i) (step a (Reply i (Response code (Some (JObj kvs)))) s)) ! i)
           = slept (THREADS s ! i) + 1 \<and>
         sent (step a (Sched i) (step a (Reply i (Response code (Some (JObj kvs)))) s)) = sent s"
proof -
  let ?t = "THREADS s ! i"
  let ?f = "Response code (Some (JObj kvs))"
  let ?t1 = "?t\<lparr>counter := counter ?t + 1, proxy_fail_counter := 0, pc := Sleeping\<rparr>"
  let ?s1 = "(print [Thread_received (name ?t) (length items)] (s\<lparr>RESULTS := RESULTS s @ parsed items\<rparr>))
               \<lparr>THREADS := (THREADS s)[i := ?t1]\<rparr>"
  have code: "code \<noteq> 429" using assms(3) by auto
  have r: "run_reply ?f ?t s =
             (?t1, print [Thread_received (name ?t) (length items)] (s\<lparr>RESULTS := RESULTS s @ parsed items\<rparr>))"
    using assms(2,3,4) code append_results_parsed [OF assms(5), of "RESULTS s"]
    by (auto simp: run_reply_def raise_for_status_def)
  have s1: "step a (Reply i ?f) s = ?s1"
    using assms(1) r by (simp add: on_thread_def print_def)
  have i1: "i < length (THREADS ?s1)" using assms(1) by (simp add: print_def)
  have t1: "THREADS ?s1 ! i = ?t1" using assms(1) by (simp add: print_def)
  have r2: "run_step ?t1 ?s1 = (?t1\<lparr>pc := Head, slept := slept ?t + 1\<rparr>, ?s1)"
    by (simp add: run_step_def)
  have s2: "step a (Sched i) ?s1 = ?s1\<lparr>THREADS := (THREADS ?s1)[i := ?t1\<lparr>pc := Head, slept := slept ?t + 1\<rparr>]\<rparr>"
    using i1 t1 r2 by (simp add: on_thread_def del: run_step_def)
  show ?thesis
    unfolding s1 s2 using assms(1) length_parsed [OF assms(5)] by (simp add: print_def)
qed

lemma parsed_dicts:
  "parsed (map JObj dicts) =
     map (\<lambda>d. \<lparr>title = (case map_of d ''title'' of None \<Rightarrow> JNull | Some v \<Rightarrow> v),
                link = (case map_of d ''link'' of None \<Rightarrow> JNull | Some v \<Rightarrow> v),
                description = (case map_of d ''description'' of None \<Rightarrow> JNull | Some v \<Rightarrow> v)\<rparr>)
         dicts"
  by (induction dicts) (simp_all add: parsed_def dict_get_def)


section \<open>The claims\<close>

subsection \<open>C1: the pages the threads fetch\<close>

text \<open>
  C1 says that the pages the threads' loops fetch are exactly the pages from
  \<open>current_page + 1\<close> to \<open>last_page\<close>. \<^verbatim>\<open>search\<close> hands out ranges whose ends are
  inclusive (the next range starts at \<open>thread_last_page + 1\<close>, the last end is
  \<open>last_page\<close>), but the loop of \<^verbatim>\<open>run\<close> stops at \<^verbatim>\<open>counter < self.end_page\<close>: the
  page \<open>end_page\<close> of a range is never asked for. So in no run does a thread ask for the
  page \<open>last_page\<close> of the first reply; with pages 1 to 2 the ranges are 2 to 2 and
  3 to 2 (four times), and page 2 is never fetched.
\<close>

theorem last_page_never_requested:
  "l \<notin> (\<lambda>r. fst (snd r)) ` set (thread_requests int_of_str a proxies (first_page c l items) es) \<and>
   ranges (main unread test_args [''a''] (first_page 1 2 []) [])
     = [(0, 2, 2), (1, 3, 2), (2, 3, 2), (3, 3, 2), (4, 3, 2)]"
proof -
  have "ranges (main unread test_args [''a''] (first_page 1 2 []) [])
     = [(0, 2, 2), (1, 3, 2), (2, 3, 2), (3, 3, 2), (4, 3, 2)]"
    by code_simp
  with last_page_not_requested [of l int_of_str a proxies c items es] show ?thesis by blast
qed

subsection \<open>C2: no page left after the first\<close>

text \<open>
  C2 says that no worker is spawned when \<open>last_page\<close> equals \<open>current_page\<close>. The loop
  of \<^verbatim>\<open>search\<close> starts \<^verbatim>\<open>NUMBER_OF_THREADS\<close> threads whatever the ranges are: with one
  page in all, five threads are started.
\<close>

theorem empty_ranges_are_spawned:
  "length (THREADS (main unread test_args [''a''] (first_page 1 1 [item ''t'']) [])) \<noteq> 0"
  by code_simp

text \<open>
  C2 as amended: when the first request is answered without error and the reply has a
  \<open>total\<close>, a list \<open>data\<close> of dicts and \<open>last_page\<close> equal to \<open>current_page\<close>, five
  threads are started, each with the empty range from \<open>current_page + 1\<close> to
  \<open>current_page\<close>; in every run the threads send no request, \<open>RESULTS\<close> holds exactly
  the results read from the first page, and once \<^verbatim>\<open>main\<close> has returned the file it
  wrote holds exactly these.
\<close>

theorem no_remaining_pages:
  assumes "keyword a \<noteq> []" and "page a = None \<or> (\<exists>p. page a = Some p \<and> 1 \<le> p)"
    and "\<not> (400 \<le> code \<and> code < 600)"
    and "dict_get kvs ''total'' JNull \<noteq> JNull"
    and "dict_get kvs ''current_page'' (JInt 1) = JInt c"
    and "dict_get kvs ''last_page'' JNull = JInt c"
    and "dict_get kvs ''data'' JNull = JArr items" and "list_all is_dict items"
  shows "ranges (main int_of_str a proxies (Response code (Some (JObj kvs))) es)
           = map (\<lambda>i. (i, c + 1, c)) [0..<5] \<and>
         thread_requests int_of_str a proxies (Response code (Some (JObj kvs))) es = [] \<and>
         RESULTS (main int_of_str a proxies (Response code (Some (JObj kvs))) es) = parsed items \<and>
         (main_pc (main int_of_str a proxies (Response code (Some (JObj kvs))) es) = MReturned \<longrightarrow>
            files (main int_of_str a proxies (Response code (Some (JObj kvs))) es)
              = [(export_path a, export_doc (parsed items))])"
proof -
  let ?f = "Response code (Some (JObj kvs))"
  let ?s0 = "main_start int_of_str a ?f (initial proxies)"
  note st = main_start_no_remaining [OF assms, of int_of_str proxies]
  have idle0: "list_all idle (THREADS ?s0)"
    using st by (simp add: list_all_iff SearchThread_def idle_def)
  note ex = idle_exec [OF idle0, of a es]
  have r: "ranges (main int_of_str a proxies ?f es) = map (\<lambda>i. (i, c + 1, c)) [0..<5]"
    using st by (simp add: main_def ranges_exec) (simp add: ranges_def SearchThread_def comp_def)
  have q: "thread_requests int_of_str a proxies ?f es = []"
    using ex by (simp add: thread_requests_def main_def)
  have res: "RESULTS (main int_of_str a proxies ?f es) = parsed items"
    using ex st by (simp add: main_def)
  from exported_exec [OF exported_main_start [of a int_of_str ?f proxies], of es]
  have "exported a (main int_of_str a proxies ?f es)" by (simp add: main_def)
  with res have "main_pc (main int_of_str a proxies ?f es) = MReturned \<longrightarrow>
            files (main int_of_str a proxies ?f es) = [(export_path a, export_doc (parsed items))]"
    by (simp add: exported_def)
  with r q res show ?thesis by blast
qed

theorem no_remaining_pages_witness:
  "ranges (main unread test_args [''a''] (first_page 1 1 [item ''t'']) (finish_all 5 @ [Main_sched]))
     = map (\<lambda>i. (i, 2, 1)) [0..<5] \<and>
   thread_requests unread test_args [''a''] (first_page 1 1 [item ''t'']) (finish_all 5 @ [Main_sched]) = [] \<and>
   RESULTS (main unread test_args [''a''] (first_page 1 1 [item ''t'']) (finish_all 5 @ [Main_sched]))
     = parsed [item ''t''] \<and>
   main_pc (main unread test_args [''a''] (first_page 1 1 [item ''t'']) (finish_all 5 @ [Main_sched]))
     = MReturned \<and>
   files (main unread test_args [''a''] (first_page 1 1 [item ''t'']) (finish_all 5 @ [Main_sched]))
     = [(''results.json'', export_doc (parsed [item ''t'']))]"
proof -
  have h: "keyword test_args \<noteq> []" "page test_args = None \<or> (\<exists>p. page test_args = Some p \<and> 1 \<le> p)"
    "\<not> (400 \<le> (200::int) \<and> (200::int) < 600)"
    "dict_get [(''total'', JInt 40), (''current_page'', JInt 1), (''last_page'', JInt 1),
               (''data'', JArr [item ''t''])] ''total'' JNull \<noteq> JNull"
    "dict_get [(''total'', JInt 40), (''current_page'', JInt 1), (''last_page'', JInt 1),
               (''data'', JArr [item ''t''])] ''current_page'' (JInt 1) = JInt 1"
    "dict_get [(''total'', JInt 40), (''current_page'', JInt 1), (''last_page'', JInt 1),
               (''data'', JArr [item ''t''])] ''last_page'' JNull = JInt 1"
    "dict_get [(''total'', JInt 40), (''current_page'', JInt 1), (''last_page'', JInt 1),
               (''data'', JArr [item ''t''])] ''data'' JNull = JArr [item ''t'']"
    "list_all is_dict [item ''t'']"
    by (simp_all add: test_args_def dict_get_def item_def)
  have m: "main_pc (main unread test_args [''a''] (first_page 1 1 [item ''t'']) (finish_all 5 @ [Main_sched]))
     = MReturned"
    by code_simp
  from no_remaining_pages [OF h, of unread "[''a'']" "finish_all 5 @ [Main_sched]"] m
  show ?thesis by (simp add: first_page_def export_path_def test_args_def)
qed

subsection \<open>C3: proxies held and proxies in the pool\<close>

text \<open>
  C3 says that at every instant the proxies held by threads and the proxies in the pool
  add up to the initial number of proxies. \<^verbatim>\<open>run\<close> gives its proxy back after the loop
  (\<^verbatim>\<open>PROXIES.append(proxy)\<close>, "add the proxy back to the list for use by other
  threads"), but at the fail limit \<^verbatim>\<open>proxy = PROXIES.pop()\<close> overwrites the proxy the
  thread holds and nothing gives that one back. In the run below thread 0 takes proxy
  \<open>b\<close>, fails ten times, and at the fail limit pops \<open>a\<close> over \<open>b\<close>: one proxy is then
  held, none is in the pool, and two were configured.
\<close>

theorem rotation_loses_a_proxy:
  "handles (main unread test_args [''a'', ''b''] (first_page 1 3 [])
             (Sched 0 # failing_rounds 0 10 @ [Sched 0, Sched 0])) \<noteq> length [''a'', ''b'']"
  by code_simp

text \<open>
  The change of proxy at the fail limit is the only step that loses a proxy: after every
  run, the proxies held, those in the pool and one for each such change add up to the
  initial number. The first checkout and the release after the loop keep the sum of held
  and pooled proxies.
\<close>

lemma handles_plus_rotations:
  "handles (main int_of_str a proxies f es)
     + rotations a es (main_start int_of_str a f (initial proxies)) = length proxies"
  using exec_handles [of a es "main_start int_of_str a f (initial proxies)"]
  by (simp add: main_def main_start_handles)

subsection \<open>C4: a 429 reply inside a thread\<close>

text \<open>
  C4 says that a thread whose request is answered with status 429 logs a quota fault and
  leaves its failure counter alone. In the code \<^verbatim>\<open>raise_for_status()\<close> comes first and
  raises \<^verbatim>\<open>HTTPError\<close> for 429: the clause for \<^verbatim>\<open>HTTPError\<close> runs, prints the HTTP
  error and adds one to \<open>proxy_fail_counter\<close>. The page counter stays and the thread goes
  on to \<^verbatim>\<open>time.sleep(1)\<close>.
\<close>

theorem quota_reply_counts_as_failure:
  "run_reply (Response 429 body) (t\<lparr>pc := Fetching\<rparr>) s =
     (t\<lparr>pc := Sleeping, proxy_fail_counter := proxy_fail_counter t + 1\<rparr>,
      print [Thread_HTTP_Error (name t) (HTTPError 429)] s)"
  by (simp add: run_reply_def raise_for_status_def)

subsection \<open>C5: the export at the end of a run\<close>

text \<open>
  C5 says that the export is made on every way a run can end, the forced exit included.
  In the run below Ctrl-C comes twice while no thread has moved; at the head of its
  loop \<^verbatim>\<open>main\<close> finds \<open>counter\<close> at 2 and a live thread, and calls \<^verbatim>\<open>bye()\<close>: the
  process exits with one result collected and no file written.
\<close>

theorem forced_exit_skips_export:
  "main_pc (main unread test_args [''a''] (first_page 1 3 [item ''t''])
             [Main_sched, Ctrl_C, Main_sched, Ctrl_C, Main_sched]) = MExited \<and>
   RESULTS (main unread test_args [''a''] (first_page 1 3 [item ''t''])
             [Main_sched, Ctrl_C, Main_sched, Ctrl_C, Main_sched]) = parsed [item ''t''] \<and>
   files (main unread test_args [''a''] (first_page 1 3 [item ''t''])
             [Main_sched, Ctrl_C, Main_sched, Ctrl_C, Main_sched]) = []"
  by code_simp

text \<open>
  C5 as amended: in every run, once \<^verbatim>\<open>main\<close> has returned no thread is alive and the
  one file written holds exactly \<open>RESULTS\<close>; as long as \<^verbatim>\<open>main\<close> has not returned, and
  when it ended in \<^verbatim>\<open>bye()\<close> or in an uncaught interrupt, no file is written. At the
  head of its loop \<^verbatim>\<open>main\<close> exports \<open>RESULTS\<close> and returns when no thread is alive,
  and exits without exporting when a thread is alive and \<open>counter\<close> is 2.
\<close>

theorem export_on_return_only:
  "(main_pc (main int_of_str a proxies f es) = MReturned \<longrightarrow>
      \<not> has_live_threads (main int_of_str a proxies f es) \<and>
      files (main int_of_str a proxies f es) =
        [(export_path a, export_doc (RESULTS (main int_of_str a proxies f es)))]) \<and>
   (main_pc (main int_of_str a proxies f es) \<noteq> MReturned \<longrightarrow>
      files (main int_of_str a proxies f es) = []) \<and>
   (main_pc s = MLoop \<and> \<not> has_live_threads s \<longrightarrow>
      step a Main_sched s = s\<lparr>files := (export_path a, export_doc (RESULTS s)) # files s,
                               main_pc := MReturned\<rparr>) \<and>
   (main_pc s = MLoop \<and> has_live_threads s \<and> main_counter s = 2 \<longrightarrow>
      step a Main_sched s = s\<lparr>stdout := stdout s @ [Counter_is 2], main_pc := MExited\<rparr>)"
proof -
  from exported_exec [OF exported_main_start [of a int_of_str f proxies], of es]
  have "exported a (main int_of_str a proxies f es)" by (simp add: main_def)
  then show ?thesis
    by (auto simp: exported_def main_loop_def export_def export_path_def print_def split: option.splits)
qed

theorem export_on_return_only_witness:
  "files (main unread test_args [''a''] (first_page 1 1 [item ''t'']) (finish_all 5 @ [Main_sched]))
     = [(export_path test_args,
         export_doc (RESULTS (main unread test_args [''a''] (first_page 1 1 [item ''t''])
                                (finish_all 5 @ [Main_sched]))))] \<and>
   files (main unread test_args [''a''] (first_page 1 3 [item ''t''])
            [Main_sched, Ctrl_C, Main_sched, Ctrl_C, Main_sched]) = [] \<and>
   step test_args Main_sched (main unread test_args [''a''] (first_page 1 1 [item ''t'']) (finish_all 5))
     = (main unread test_args [''a''] (first_page 1 1 [item ''t'']) (finish_all 5))
         \<lparr>files := (export_path test_args,
                    export_doc (RESULTS (main unread test_args [''a''] (first_page 1 1 [item ''t''])
                                           (finish_all 5))))
                   # files (main unread test_args [''a''] (first_page 1 1 [item ''t'']) (finish_all 5)),
          main_pc := MReturned\<rparr> \<and>
   step test_args Main_sched (main unread test_args [''a''] (first_page 1 3 [item ''t''])
                                [Main_sched, Ctrl_C, Main_sched, Ctrl_C])
     = (main unread test_args [''a''] (first_page 1 3 [item ''t'']) [Main_sched, Ctrl_C, Main_sched, Ctrl_C])
         \<lparr>stdout := stdout (main unread test_args [''a''] (first_page 1 3 [item ''t''])
                               [Main_sched, Ctrl_C, Main_sched, Ctrl_C]) @ [Counter_is 2],
          main_pc := MExited\<rparr>"
proof -
  let ?s3 = "main unread test_args [''a''] (first_page 1 1 [item ''t'']) (finish_all 5)"
  let ?s4 = "main unread test_args [''a''] (first_page 1 3 [item ''t'']) [Main_sched, Ctrl_C, Main_sched, Ctrl_C]"
  have h1: "main_pc (main unread test_args [''a''] (first_page 1 1 [item ''t''])
                       (finish_all 5 @ [Main_sched])) = MReturned"
    by code_simp
  have h2: "main_pc (main unread test_args [''a''] (first_page 1 3 [item ''t''])
                       [Main_sched, Ctrl_C, Main_sched, Ctrl_C, Main_sched]) \<noteq> MReturned"
    by code_simp
  have h3: "main_pc ?s3 = MLoop \<and> \<not> has_live_threads ?s3"
    by code_simp
  have h4: "main_pc ?s4 = MLoop \<and> has_live_threads ?s4 \<and> main_counter ?s4 = 2"
    by code_simp
  from export_on_return_only [of unread test_args "[''a'']" "first_page 1 1 [item ''t'']"
                  "finish_all 5 @ [Main_sched]" ?s3] h1 h3
  have c1: "files (main unread test_args [''a''] (first_page 1 1 [item ''t'']) (finish_all 5 @ [Main_sched]))
     = [(export_path test_args,
         export_doc (RESULTS (main unread test_args [''a''] (first_page 1 1 [item ''t''])
                                (finish_all 5 @ [Main_sched]))))]"
    and c3: "step test_args Main_sched ?s3
       = ?s3\<lparr>files := (export_path test_args, export_doc (RESULTS ?s3)) # files ?s3,
              main_pc := MReturned\<rparr>"
    by blast+
  from export_on_return_only [of unread test_args "[''a'']" "first_page 1 3 [item ''t'']"
                  "[Main_sched, Ctrl_C, Main_sched, Ctrl_C, Main_sched]" ?s4] h2 h4
  have c2: "files (main unread test_args [''a''] (first_page 1 3 [item ''t''])
                     [Main_sched, Ctrl_C, Main_sched, Ctrl_C, Main_sched]) = []"
    and c4: "step test_args Main_sched ?s4
              = ?s4\<lparr>stdout := stdout ?s4 @ [Counter_is 2], main_pc := MExited\<rparr>"
    by blast+
  from c1 c2 c3 c4 show ?thesis by blast
qed

subsection \<open>C6: a 429 reply to the first request\<close>

text \<open>
  C6 says that \<^verbatim>\<open>search\<close> fails with the quota exception when the first request is
  answered with status 429. In the code \<^verbatim>\<open>raise_for_status()\<close> raises \<^verbatim>\<open>HTTPError\<close>
  before the status is compared with 429: \<^verbatim>\<open>search "test" 1\<close> ends in the clause for
  \<^verbatim>\<open>HTTPError\<close>. One request was sent; no result is appended and no thread started.
\<close>

theorem first_quota_reply_is_http_error:
  "search int_of_str (Some ''test'') (Some 1) (Response 429 body) s =
     (Some (HTTPError 429),
      s\<lparr>sent := sent s @ [(''test'', 1, None)], stdout := stdout s @ [HTTP_Error (HTTPError 429)]\<rparr>)"
  by (simp add: search_def search_try_def raise_for_status_def print_def)

subsection \<open>C7: validation of the arguments\<close>

text \<open>
  C7: \<^verbatim>\<open>search\<close> tests the query first and the page second. A call with a missing or
  empty query raises \<^verbatim>\<open>NoQueryException\<close>; a call whose query passes and whose page is
  below 1 raises \<^verbatim>\<open>InvalidPageException\<close>. In both cases \<^verbatim>\<open>search\<close> prints one line
  and changes nothing else: no request is sent, no result appended, no thread started,
  and nothing is tried again.
\<close>

theorem search_rejects_arguments:
  "((query_arg = None \<or> query_arg = Some []) \<longrightarrow>
      search int_of_str query_arg page_arg f s =
        (Some NoQueryException, s\<lparr>stdout := stdout s @ [No_query_specified]\<rparr>)) \<and>
   (q \<noteq> [] \<and> n < 1 \<longrightarrow>
      search int_of_str (Some q) (Some n) f s =
        (Some InvalidPageException, s\<lparr>stdout := stdout s @ [Page_number_invalid]\<rparr>))"
  by (auto simp: search_def search_try_def print_def)

theorem search_rejects_arguments_witness:
  "search unread (Some []) (Some 1) Transport_failure (initial [''p'']) =
     (Some NoQueryException, (initial [''p''])\<lparr>stdout := [No_query_specified]\<rparr>) \<and>
   search unread None (Some 1) Transport_failure (initial [''p'']) =
     (Some NoQueryException, (initial [''p''])\<lparr>stdout := [No_query_specified]\<rparr>) \<and>
   search unread (Some ''test'') (Some 0) Transport_failure (initial [''p'']) =
     (Some InvalidPageException, (initial [''p''])\<lparr>stdout := [Page_number_invalid]\<rparr>)"
  using search_rejects_arguments
          [where query_arg = "Some []" and int_of_str = unread and page_arg = "Some 1"
             and f = Transport_failure and s = "initial [''p'']" and q = "''test''" and n = 0]
        search_rejects_arguments
          [where query_arg = None and int_of_str = unread and page_arg = "Some 1"
             and f = Transport_failure and s = "initial [''p'']" and q = "''test''" and n = 0]
  by (simp add: initial_def)

subsection \<open>C8: a successful reply inside a thread\<close>

text \<open>
  C8: when the request a thread waits for is answered without error and the reply has a
  list \<open>data\<close> of dicts, the thread appends one result for each dict, in order, to
  \<open>RESULTS\<close>: its title, link and description are the values the dict has under
  \<open>title\<close>, \<open>link\<close> and \<open>description\<close>, and \<^verbatim>\<open>None\<close> for a key the dict lacks. The
  thread adds one to its page counter, sets \<open>proxy_fail_counter\<close> to 0 and goes to
  \<^verbatim>\<open>time.sleep(1)\<close>; its next step is that sleep of one second, after which it is at
  the head of its loop, no request sent in between.
\<close>

theorem successful_reply:
  assumes "i < length (THREADS s)" and "pc (THREADS s ! i) = Fetching"
    and "\<not> (400 \<le> code \<and> code < 600)"
    and "map_of kvs ''data'' = Some (JArr (map JObj dicts))"
  shows "RESULTS (step a (Reply i (Response code (Some (JObj kvs)))) s) =
           RESULTS s @
           map (\<lambda>d. \<lparr>title = (case map_of d ''title'' of None \<Rightarrow> JNull | Some v \<Rightarrow> v),
                      link = (case map_of d ''link'' of None \<Rightarrow> JNull | Some v \<Rightarrow> v),
                      description = (case map_of d ''description'' of None \<Rightarrow> JNull | Some v \<Rightarrow> v)\<rparr>)
               dicts \<and>
         counter (THREADS (step a (Reply i (Response code (Some (JObj kvs)))) s) ! i)
           = counter (THREADS s ! i) + 1 \<and>
         proxy_fail_counter (THREADS (step a (Reply i (Response code (Some (JObj kvs)))) s) ! i) = 0 \<and>
         pc (THREADS (step a (Reply i (Response code (Some (JObj kvs)))) s) ! i) = Sleeping \<and>
         pc (THREADS (step a (Sched i) (step a (Reply i (Response code (Some (JObj kvs)))) s)) ! i) = Head \<and>
         slept (THREADS (step a (Sched i) (step a (Reply i (Response code (Some (JObj kvs)))) s)) ! i)
           = slept (THREADS s ! i) + 1 \<and>
         sent (step a (Sched i) (step a (Reply i (Response code (Some (JObj kvs)))) s)) = sent s"
proof -
  have d: "dict_get kvs ''data'' JNull = JArr (map JObj dicts)"
    using assms(4) by (simp add: dict_get_def)
  have a: "list_all is_dict (map JObj dicts)"
    by (induction dicts) simp_all
  from reply_with_dicts [OF assms(1,2,3) d a, of a] show ?thesis
    by (simp add: parsed_dicts)
qed

theorem successful_reply_witness:
  "RESULTS (step test_args (Reply 0 (first_page 2 3 [item ''t''])) in_flight)
     = [\<lparr>title = JStr ''t'', link = JStr ''x.onion'', description = JStr ''d''\<rparr>] \<and>
   counter (THREADS (step test_args (Reply 0 (first_page 2 3 [item ''t''])) in_flight) ! 0) = 3 \<and>
   proxy_fail_counter (THREADS (step test_args (Reply 0 (first_page 2 3 [item ''t''])) in_flight) ! 0) = 0 \<and>
   pc (THREADS (step test_args (Reply 0 (first_page 2 3 [item ''t''])) in_flight) ! 0) = Sleeping \<and>
   pc (THREADS (step test_args (Sched 0)
                  (step test_args (Reply 0 (first_page 2 3 [item ''t''])) in_flight)) ! 0) = Head \<and>
   slept (THREADS (step test_args (Sched 0)
                  (step test_args (Reply 0 (first_page 2 3 [item ''t''])) in_flight)) ! 0) = 1 \<and>
   sent (step test_args (Sched 0) (step test_args (Reply 0 (first_page 2 3 [item ''t''])) in_flight))
     = [(''test'', 1, None), (''test'', 2, Some ''a'')]"
proof -
  let ?d = "[(''title'', JStr ''t''), (''link'', JStr ''x.onion''), (''description'', JStr ''d'')]"
  let ?kvs = "[(''total'', JInt 40), (''current_page'', JInt 2), (''last_page'', JInt 3),
               (''data'', JArr (map JObj [?d]))]"
  have h: "0 < length (THREADS in_flight)" "pc (THREADS in_flight ! 0) = Fetching"
    "\<not> (400 \<le> (200::int) \<and> (200::int) < 600)"
    "map_of ?kvs ''data'' = Some (JArr (map JObj [?d]))"
    by code_simp+
  have v: "RESULTS in_flight = []" "counter (THREADS in_flight ! 0) = 2"
    "slept (THREADS in_flight ! 0) = 0" "sent in_flight = [(''test'', 1, None), (''test'', 2, Some ''a'')]"
    by code_simp+
  have f: "first_page 2 3 [item ''t''] = Response 200 (Some (JObj ?kvs))"
    by (simp add: first_page_def item_def)
  from successful_reply [OF h, of test_args] show ?thesis
    unfolding f v by simp
qed

subsection \<open>C9: a thread after its flag is set\<close>

text \<open>
  C9: for a thread whose \<open>kill_received\<close> is set, whatever happens next (its own steps,
  those of the other threads, of \<^verbatim>\<open>main\<close>, or Ctrl-C): the flag stays set; at most one
  reply is still processed; no event moves the thread away from the end of \<^verbatim>\<open>run\<close>,
  and while it is alive its own next step (after the reply it waits for, if any) brings
  it closer; at the head of the loop its next step leaves the loop; and if it held a
  proxy it does not end by an exception, and when \<^verbatim>\<open>run\<close> has ended it has appended
  exactly the proxy it held to \<^verbatim>\<open>PROXIES\<close>.
\<close>

theorem cancelled_thread_winds_down:
  assumes "i < length (THREADS s)" and "kill_received (THREADS s ! i)"
  shows "kill_received (THREADS (exec a es s) ! i) \<and>
         rank (pc (THREADS (exec a es s) ! i)) \<le> rank (pc (THREADS s ! i)) \<and>
         fetches_completed a i es s \<le> 1 \<and>
         (isAlive (THREADS (exec a es s) ! i) \<longrightarrow>
            rank (pc (THREADS (step a (Sched i) (step a (Reply i f) (exec a es s))) ! i))
              < rank (pc (THREADS (exec a es s) ! i))) \<and>
         (pc (THREADS (exec a es s) ! i) = Head \<longrightarrow>
            pc (THREADS (step a (Sched i) (exec a es s)) ! i) = Exiting) \<and>
         (checked_out (THREADS s ! i) \<longrightarrow>
            pc (THREADS (exec a es s) ! i) \<noteq> Crashed \<and>
            (pc (THREADS (exec a es s) ! i) = Finished \<longrightarrow>
               (\<exists>p. proxy (THREADS (exec a es s) ! i) = Some p \<and> returned a i es s = [p])))"
proof -
  let ?s' = "exec a es s"
  let ?t' = "THREADS ?s' ! i"
  note ke = kill_exec [OF assms, of a es]
  have i': "i < length (THREADS ?s')"
    using assms(1) by (induction es arbitrary: s) (simp_all add: length_THREADS_step)
  from ke have k': "kill_received ?t'" by simp
  have c3: "fetches_completed a i es s \<le> 1" using ke by (simp split: if_splits)
  have c5: "pc ?t' = Head \<longrightarrow> pc (THREADS (step a (Sched i) ?s') ! i) = Exiting"
  proof
    assume h: "pc ?t' = Head"
    obtain t2 s2 where r: "run_step ?t' ?s' = (t2, s2)" by fastforce
    from kill_run_step [OF k' r] h r i' show "pc (THREADS (step a (Sched i) ?s') ! i) = Exiting"
      by (simp add: nth_step del: step.simps)
  qed
  have c4: "isAlive ?t' \<longrightarrow>
            rank (pc (THREADS (step a (Sched i) (step a (Reply i f) ?s')) ! i)) < rank (pc ?t')"
  proof
    assume al: "isAlive ?t'"
    let ?s1 = "step a (Reply i f) ?s'"
    obtain t1 s1 where r1: "run_reply f ?t' ?s' = (t1, s1)" by fastforce
    have i1: "i < length (THREADS ?s1)" using i' by (simp add: length_THREADS_step del: step.simps)
    have t1: "THREADS ?s1 ! i = t1" using i' r1 by (simp add: nth_step del: step.simps)
    note kr = kill_run_reply [OF r1]
    from kr k' have k1: "kill_received t1" by simp
    obtain t2 s2 where r2: "run_step t1 ?s1 = (t2, s2)" by fastforce
    have t2: "THREADS (step a (Sched i) ?s1) ! i = t2"
      using i1 t1 r2 by (simp add: nth_step del: step.simps)
    note ks = kill_run_step [OF k1 r2]
    show "rank (pc (THREADS (step a (Sched i) ?s1) ! i)) < rank (pc ?t')"
    proof (cases "pc ?t' = Fetching")
      case True
      with kr have "pc t1 = Sleeping" by simp
      with ks have "rank (pc t2) < 3" by (simp add: isAlive_def)
      with True t2 show ?thesis by simp
    next
      case False
      with kr have "t1 = ?t'" by simp
      with ks al False have "rank (pc t2) < rank (pc ?t')" by simp
      with t2 show ?thesis by simp
    qed
  qed
  have c6: "checked_out (THREADS s ! i) \<longrightarrow>
            pc ?t' \<noteq> Crashed \<and>
            (pc ?t' = Finished \<longrightarrow> (\<exists>p. proxy ?t' = Some p \<and> returned a i es s = [p]))"
    using ke by (auto simp: checked_out_def)
  from ke c3 c4 c5 c6 show ?thesis by blast
qed

theorem cancelled_thread_winds_down_witness:
  "kill_received (THREADS (exec test_args [Reply 0 (first_page 2 3 [item ''t'']), Sched 0, Sched 0, Sched 0]
                             cancelled_in_flight) ! 0) \<and>
   fetches_completed test_args 0 [Reply 0 (first_page 2 3 [item ''t'']), Sched 0, Sched 0, Sched 0]
       cancelled_in_flight \<le> 1 \<and>
   pc (THREADS (exec test_args [Reply 0 (first_page 2 3 [item ''t'']), Sched 0, Sched 0, Sched 0]
                             cancelled_in_flight) ! 0) = Finished \<and>
   returned test_args 0 [Reply 0 (first_page 2 3 [item ''t'']), Sched 0, Sched 0, Sched 0]
       cancelled_in_flight = [''a''] \<and>
   pc (THREADS (step test_args (Sched 0)
                  (exec test_args [Reply 0 (first_page 2 3 [item ''t'']), Sched 0] cancelled_in_flight)) ! 0)
     = Exiting \<and>
   rank (pc (THREADS (step test_args (Sched 0) (step test_args (Reply 0 Transport_failure)
                  (exec test_args [Reply 0 (first_page 2 3 [item ''t'']), Sched 0] cancelled_in_flight))) ! 0))
     < rank (pc (THREADS (exec test_args [Reply 0 (first_page 2 3 [item ''t'']), Sched 0]
                            cancelled_in_flight) ! 0))"
proof -
  let ?es = "[Reply 0 (first_page 2 3 [item ''t'']), Sched 0, Sched 0, Sched 0]"
  let ?es2 = "[Reply 0 (first_page 2 3 [item ''t'']), Sched 0]"
  have h: "0 < length (THREADS cancelled_in_flight)" "kill_received (THREADS cancelled_in_flight ! 0)"
    by code_simp+
  have co: "checked_out (THREADS cancelled_in_flight ! 0)" by code_simp
  have fin: "pc (THREADS (exec test_args ?es cancelled_in_flight) ! 0) = Finished"
    "proxy (THREADS (exec test_args ?es cancelled_in_flight) ! 0) = Some ''a''"
    by code_simp+
  have hd: "pc (THREADS (exec test_args ?es2 cancelled_in_flight) ! 0) = Head"
    "isAlive (THREADS (exec test_args ?es2 cancelled_in_flight) ! 0)"
    by code_simp+
  from cancelled_thread_winds_down [OF h, of test_args ?es Transport_failure] co fin
  have a: "kill_received (THREADS (exec test_args ?es cancelled_in_flight) ! 0)"
    "fetches_completed test_args 0 ?es cancelled_in_flight \<le> 1"
    "returned test_args 0 ?es cancelled_in_flight = [''a'']"
    by auto
  from cancelled_thread_winds_down [OF h, of test_args ?es2 Transport_failure] hd
  have b: "pc (THREADS (step test_args (Sched 0) (exec test_args ?es2 cancelled_in_flight)) ! 0) = Exiting"
    "rank (pc (THREADS (step test_args (Sched 0) (step test_args (Reply 0 Transport_failure)
                  (exec test_args ?es2 cancelled_in_flight))) ! 0))
     < rank (pc (THREADS (exec test_args ?es2 cancelled_in_flight) ! 0))"
    by blast+
  from a b fin(1) show ?thesis by blast
qed

subsection \<open>C10: a first reply without \<open>total\<close>\<close>

text \<open>
  C10: when the first request is answered with a status that is no error and a JSON
  object without the key \<open>total\<close>, \<^verbatim>\<open>search\<close> returns with no exception; the request
  was sent, and nothing was printed, appended or started.
\<close>

theorem search_without_total:
  assumes "q \<noteq> []" and "1 \<le> p" and "\<not> (400 \<le> code \<and> code < 600)"
    and "map_of kvs ''total'' = None"
  shows "search int_of_str (Some q) (Some p) (Response code (Some (JObj kvs))) s =
           (None, s\<lparr>sent := sent s @ [(q, p, None)]\<rparr>)"
  using assms by (auto simp: search_def search_try_def raise_for_status_def dict_get_def Let_def)

theorem search_without_total_witness:
  "search unread (Some ''test'') (Some 1) (Response 200 (Some (JObj [(''message'', JStr ''ok'')])))
       (initial [''p'']) =
     (None, (initial [''p''])\<lparr>sent := [(''test'', 1, None)]\<rparr>)"
  using search_without_total
          [of "''test''" 1 200 "[(''message'', JStr ''ok'')]" unread "initial [''p'']"]
  by (simp add: initial_def)

end
